theory Spec2Isabelle
  imports Main "HOL-Library.Sublist" "HOL-Library.AList"
begin

section \<open>The odin-data control client (odin\_data\_client.py)\<close>

text \<open>
  The client keeps two configuration trees and a plugin list, all of them values
  decoded from JSON or built by the setters, three session fields, and a message id
  counter. Every method of \<^verbatim>\<open>OdinDataClient\<close> is embedded as a function from
  the client's state to an outcome (a value or the exception raised) and the state the
  method leaves behind. An exception leaves the state as it was at the raise: Python
  does not roll back.
\<close>

subsection \<open>JSON values and the Python operations used on them\<close>

text \<open>
  What \<^verbatim>\<open>json.load\<close> returns: \<^verbatim>\<open>None\<close>, a bool, an int, a float, a
  string, a list or a dict with string keys. A dict is an association list in insertion
  order. No method of the client looks inside a float; it is kept as a mantissa and an
  exponent, and is false exactly when the mantissa is zero.
\<close>

datatype json =
    JNull
  | JBool bool
  | JInt int
  | JFloat int int
  | JStr string
  | JArr "json list"
  | JObj "(string \<times> json) list"

datatype error =
    TypeError
  | KeyError json
  | ValueError
  | UnicodeDecodeError
  | RecursionError
  | IpcMessageException string

text \<open>Truth value of an object, as \<^verbatim>\<open>if params:\<close> tests it.\<close>

fun truthy :: "json \<Rightarrow> bool" where
  "truthy JNull = False"
| "truthy (JBool b) = b"
| "truthy (JInt i) = (i \<noteq> 0)"
| "truthy (JFloat m e) = (m \<noteq> 0)"
| "truthy (JStr s) = (s \<noteq> [])"
| "truthy (JArr xs) = (xs \<noteq> [])"
| "truthy (JObj kvs) = (kvs \<noteq> [])"

text \<open>\<^verbatim>\<open>a in b\<close> on two strings: \<open>a\<close> occurs in \<open>b\<close> as a contiguous run.\<close>

fun substring :: "string \<Rightarrow> string \<Rightarrow> bool" where
  "substring s [] = (s = [])"
| "substring s (c # cs) = (prefix s (c # cs) \<or> substring s cs)"

text \<open>
  \<^verbatim>\<open>section in config\<close> with a string on the left: key membership in a dict,
  element membership in a list, substring test in a string, and a
  \<^verbatim>\<open>TypeError\<close> on anything that is not a container.
\<close>

fun py_contains :: "string \<Rightarrow> json \<Rightarrow> error + bool" where
  "py_contains k (JObj kvs) = Inr (map_of kvs k \<noteq> None)"
| "py_contains k (JArr xs) = Inr (List.member xs (JStr k))"
| "py_contains k (JStr s) = Inr (substring k s)"
| "py_contains k JNull = Inl TypeError"
| "py_contains k (JBool b) = Inl TypeError"
| "py_contains k (JInt i) = Inl TypeError"
| "py_contains k (JFloat m e) = Inl TypeError"

text \<open>
  \<^verbatim>\<open>config[section]\<close> with a string subscript: the value in a dict, a
  \<^verbatim>\<open>KeyError\<close> when the dict lacks the key, a \<^verbatim>\<open>TypeError\<close> on
  every other object (a list and a string take integer subscripts only).
\<close>

fun py_getitem :: "json \<Rightarrow> string \<Rightarrow> error + json" where
  "py_getitem (JObj kvs) k =
     (case map_of kvs k of None \<Rightarrow> Inl (KeyError (JStr k)) | Some v \<Rightarrow> Inr v)"
| "py_getitem JNull k = Inl TypeError"
| "py_getitem (JBool b) k = Inl TypeError"
| "py_getitem (JInt i) k = Inl TypeError"
| "py_getitem (JFloat m e) k = Inl TypeError"
| "py_getitem (JStr s) k = Inl TypeError"
| "py_getitem (JArr xs) k = Inl TypeError"

text \<open>
  \<^verbatim>\<open>config[section] = v\<close> with a string subscript, giving the object after the
  assignment: a dict keeps the position of a key it has and appends a new one.
\<close>

fun py_setitem :: "json \<Rightarrow> string \<Rightarrow> json \<Rightarrow> error + json" where
  "py_setitem (JObj kvs) k v = Inr (JObj (AList.update k v kvs))"
| "py_setitem JNull k v = Inl TypeError"
| "py_setitem (JBool b) k v = Inl TypeError"
| "py_setitem (JInt i) k v = Inl TypeError"
| "py_setitem (JFloat m e) k v = Inl TypeError"
| "py_setitem (JStr s) k v = Inl TypeError"
| "py_setitem (JArr xs) k v = Inl TypeError"

text \<open>\<^verbatim>\<open>len(x)\<close> and the items a \<^verbatim>\<open>for\<close> loop over \<open>x\<close> visits.\<close>

fun py_len :: "json \<Rightarrow> error + nat" where
  "py_len (JObj kvs) = Inr (length kvs)"
| "py_len (JArr xs) = Inr (length xs)"
| "py_len (JStr s) = Inr (length s)"
| "py_len JNull = Inl TypeError"
| "py_len (JBool b) = Inl TypeError"
| "py_len (JInt i) = Inl TypeError"
| "py_len (JFloat m e) = Inl TypeError"

fun py_iter :: "json \<Rightarrow> error + json list" where
  "py_iter (JArr xs) = Inr xs"
| "py_iter (JObj kvs) = Inr (map (\<lambda>kv. JStr (fst kv)) kvs)"
| "py_iter (JStr s) = Inr (map (\<lambda>ch. JStr [ch]) s)"
| "py_iter JNull = Inl TypeError"
| "py_iter (JBool b) = Inl TypeError"
| "py_iter (JInt i) = Inl TypeError"
| "py_iter (JFloat m e) = Inl TypeError"

text \<open>
  Decimal rendering of an integer, as \<^verbatim>\<open>"{:d}".format(i)\<close> and
  \<^verbatim>\<open>"{}".format(i)\<close> give it when they give one.
\<close>

definition digit_char :: "nat \<Rightarrow> char" where
  "digit_char d = char_of (48 + d)"

fun digits :: "nat \<Rightarrow> string" where
  "digits n = (if n < 10 then [digit_char n] else digits (n div 10) @ [digit_char (n mod 10)])"

declare digits.simps [simp del]

definition show_int :: "int \<Rightarrow> string" where
  "show_int i = (if i < 0 then CHR ''-'' # digits (nat (- i)) else digits (nat i))"

text \<open>
  CPython (3.11 and later, and the security releases of 3.7 to 3.10) refuses to turn an
  integer of more than 4300 decimal digits into a string, 4300 being the default of
  \<^verbatim>\<open>sys.set_int_max_str_digits\<close>: the conversion raises \<^verbatim>\<open>ValueError\<close>.
  \<open>format_d\<close> is \<^verbatim>\<open>"{:d}".format(i)\<close> with that outcome. The sign does not
  count as a digit.
\<close>

definition int_max_str_digits :: nat where
  "int_max_str_digits = 4300"

definition format_d :: "int \<Rightarrow> error + string" where
  "format_d i =
     (if int_max_str_digits < length (digits (nat \<bar>i\<bar>)) then Inl ValueError
      else Inr (show_int i))"

text \<open>
  What a decimal numeral is, said without \<open>digits\<close>: a string of the characters
  \<^verbatim>\<open>0\<close> to \<^verbatim>\<open>9\<close>, not empty, with no leading zero unless it is
  \<^verbatim>\<open>0\<close> itself; its value is read from the left, ten times what came before plus
  the digit.
\<close>

definition is_digit :: "char \<Rightarrow> bool" where
  "is_digit ch = (ch \<in> set ''0123456789'')"

definition digit_value :: "char \<Rightarrow> nat" where
  "digit_value ch = of_char ch - 48"

definition decimal_value :: "string \<Rightarrow> nat" where
  "decimal_value ds = foldl (\<lambda>a ch. 10 * a + digit_value ch) 0 ds"

definition is_decimal :: "string \<Rightarrow> bool" where
  "is_decimal ds =
     (ds \<noteq> [] \<and> list_all is_digit ds \<and> (hd ds = CHR ''0'' \<longrightarrow> ds = ''0''))"

subsection \<open>Paths into a tree\<close>

text \<open>
  \<open>lookup_path t ks\<close> is the value reached from \<open>t\<close> through the keys \<open>ks\<close>, when every
  step goes through a dict that has the key; \<open>getitems\<close> is the Python expression
  \<^verbatim>\<open>t[k1][k2]...\<close>, which raises where \<open>lookup_path\<close> has no value; \<open>update_at\<close>
  replaces the value at a path, which is what mutating the object found there does to
  the tree that holds it.
\<close>

fun lookup_path :: "json \<Rightarrow> string list \<Rightarrow> json option" where
  "lookup_path t [] = Some t"
| "lookup_path (JObj kvs) (k # ks) =
     (case map_of kvs k of None \<Rightarrow> None | Some v \<Rightarrow> lookup_path v ks)"
| "lookup_path t (k # ks) = None"

fun getitems :: "json \<Rightarrow> string list \<Rightarrow> error + json" where
  "getitems t [] = Inr t"
| "getitems t (k # ks) =
     (case py_getitem t k of Inl e \<Rightarrow> Inl e | Inr v \<Rightarrow> getitems v ks)"

fun update_at :: "string list \<Rightarrow> json \<Rightarrow> json \<Rightarrow> json" where
  "update_at [] new t = new"
| "update_at (k # ks) new (JObj kvs) =
     (case map_of kvs k of
        None \<Rightarrow> JObj kvs
      | Some v \<Rightarrow> JObj (AList.update k (update_at ks new v) kvs))"
| "update_at (k # ks) new t = t"

subsection \<open>Messages, channels and what the client does to the outside\<close>

text \<open>
  The two control channels, \<^verbatim>\<open>fr_ctrl_channel\<close> and \<^verbatim>\<open>fp_ctrl_channel\<close>, and the
  message \<^verbatim>\<open>IpcMessage("cmd", cmd, id=...)\<close> with its optional \<^verbatim>\<open>params\<close>.
\<close>

datatype channel = FrCtrl | FpCtrl

record ipc_message =
  msg_type :: string
  msg_val :: string
  msg_id :: int
  params :: "json option"

text \<open>
  Modelled from the spec: \<^verbatim>\<open>IpcMessage\<close> (odin\_data.ipc\_message) is not among
  the sources. A reply is a message carrying a \<^verbatim>\<open>params\<close> mapping that the client
  reads by named lookups, and it has a textual rendering for the log. A lookup of a
  name the mapping lacks raises.
\<close>

record reply =
  reply_text :: string
  reply_params :: "(string \<times> json) list"

definition get_param :: "reply \<Rightarrow> string \<Rightarrow> error + json" where
  "get_param r name =
     (case map_of (reply_params r) name of
        None \<Rightarrow> Inl (IpcMessageException name)
      | Some v \<Rightarrow> Inr v)"

datatype level = Debug | Info | Error

datatype event =
    Log level string
  | Send channel ipc_message
  | Print json
  | Sleep nat

subsection \<open>The client's state\<close>

text \<open>
  The fields of \<^verbatim>\<open>OdinDataClient\<close> that the methods read and write. \<open>trace\<close> is
  what the client has done so far, oldest first: log records, messages sent, values
  printed and pauses in milliseconds. \<open>polls\<close> counts the calls of
  \<^verbatim>\<open>channel.poll\<close> made so far; the transport answers the \<open>n\<close>-th of them with a
  reply or with nothing within the timeout.
\<close>

record client =
  fr_config :: json
  fp_config :: json
  fp_plugins :: json
  frames :: int
  file_path :: string
  file_name :: string
  msg_counter :: int
  trace :: "event list"
  polls :: nat

text \<open>The state \<^verbatim>\<open>__init__\<close> leaves once both channels are connected.\<close>

definition init_client :: client where
  "init_client =
     \<lparr> fr_config = JObj [], fp_config = JObj [], fp_plugins = JArr [],
       frames = 1, file_path = ''/tmp'', file_name = ''test.hdf5'',
       msg_counter = 0, trace = [], polls = 0 \<rparr>"

definition MESSAGE_ID_MAX :: int where
  "MESSAGE_ID_MAX = 2 ^ 32"

subsection \<open>Statements\<close>

type_synonym 'a act = "client \<Rightarrow> (error + 'a) \<times> client"

definition returnA :: "'a \<Rightarrow> 'a act" where
  "returnA x c = (Inr x, c)"

definition raiseA :: "error \<Rightarrow> 'a act" where
  "raiseA e c = (Inl e, c)"

definition bindA :: "'a act \<Rightarrow> ('a \<Rightarrow> 'b act) \<Rightarrow> 'b act" where
  "bindA m f c = (case m c of (Inl e, c') \<Rightarrow> (Inl e, c') | (Inr x, c') \<Rightarrow> f x c')"

definition thenA :: "unit act \<Rightarrow> 'b act \<Rightarrow> 'b act" where
  "thenA m n = bindA m (\<lambda>_. n)"

fun block :: "unit act list \<Rightarrow> unit act" where
  "block [] = returnA ()"
| "block (m # ms) = thenA m (block ms)"

definition liftE :: "error + 'a \<Rightarrow> 'a act" where
  "liftE r = (case r of Inl e \<Rightarrow> raiseA e | Inr x \<Rightarrow> returnA x)"

definition reading :: "(client \<Rightarrow> 'a) \<Rightarrow> 'a act" where
  "reading field c = (Inr (field c), c)"

definition modify :: "(client \<Rightarrow> client) \<Rightarrow> unit act" where
  "modify f c = (Inr (), f c)"

definition emit :: "event \<Rightarrow> unit act" where
  "emit ev = modify (\<lambda>c. c\<lparr>trace := trace c @ [ev]\<rparr>)"

definition logger :: "level \<Rightarrow> string \<Rightarrow> unit act" where
  "logger lv text = emit (Log lv text)"

fun for_each :: "'a list \<Rightarrow> ('a \<Rightarrow> unit act) \<Rightarrow> unit act" where
  "for_each [] body = returnA ()"
| "for_each (x # xs) body = thenA (body x) (for_each xs body)"

text \<open>\<^verbatim>\<open>for _ in range(n): body\<close>\<close>

fun for_range :: "nat \<Rightarrow> unit act \<Rightarrow> unit act" where
  "for_range 0 body = returnA ()"
| "for_range (Suc n) body = thenA body (for_range n body)"

subsection \<open>References to the objects inside the two trees\<close>

text \<open>
  \<^verbatim>\<open>self.fp_config["hdf"]["file"]\<close> denotes an object inside the processor tree;
  the model names it by the tree and the keys. \<open>deref\<close> evaluates the expression and
  raises as Python does; \<open>mutate\<close> is the effect on the tree of changing that object in
  place.
\<close>

datatype tree = FrConfig | FpConfig

type_synonym ref = "tree \<times> string list"

fun tree_of :: "tree \<Rightarrow> client \<Rightarrow> json" where
  "tree_of FrConfig c = fr_config c"
| "tree_of FpConfig c = fp_config c"

fun put_tree :: "tree \<Rightarrow> json \<Rightarrow> client \<Rightarrow> client" where
  "put_tree FrConfig t c = c\<lparr>fr_config := t\<rparr>"
| "put_tree FpConfig t c = c\<lparr>fp_config := t\<rparr>"

definition deref :: "ref \<Rightarrow> json act" where
  "deref r = bindA (reading (tree_of (fst r))) (\<lambda>t. liftE (getitems t (snd r)))"

definition mutate :: "ref \<Rightarrow> json \<Rightarrow> unit act" where
  "mutate r obj = modify (\<lambda>c. put_tree (fst r) (update_at (snd r) obj (tree_of (fst r) c)) c)"

text \<open>The statement \<^verbatim>\<open>target[key] = v\<close>.\<close>

definition assign :: "ref \<Rightarrow> string \<Rightarrow> json \<Rightarrow> unit act" where
  "assign target key v =
     bindA (deref target) (\<lambda>obj.
     bindA (liftE (py_setitem obj key v)) (\<lambda>obj'.
     mutate target obj'))"

subsection \<open>The methods of the client\<close>

text \<open>
  \<^verbatim>\<open>json.load(config_file)\<close> is taken by its outcome: the decoded value; the
  message of the \<^verbatim>\<open>JSONDecodeError\<close> it raises on text that is not JSON; or
  another exception that reading or decoding raises, such as
  \<^verbatim>\<open>UnicodeDecodeError\<close> on bytes that are not in the encoding of the file and
  \<^verbatim>\<open>RecursionError\<close> on a document nested deeper than the interpreter allows.
  \<^verbatim>\<open>load_config\<close> handles the \<^verbatim>\<open>JSONDecodeError\<close> of
  \<^verbatim>\<open>json.decoder\<close> and nothing else.
\<close>

datatype load_result =
    Decoded json
  | DecodeError string
  | LoadError error

record config_file =
  name :: string
  json_load :: load_result

definition install :: "json \<Rightarrow> string \<Rightarrow> (json \<Rightarrow> client \<Rightarrow> client) \<Rightarrow> unit act" where
  "install config_params key store =
     bindA (liftE (py_contains key config_params)) (\<lambda>present.
       if present
       then bindA (liftE (py_getitem config_params key)) (\<lambda>v. modify (store v))
       else returnA ())"

definition load_config :: "config_file \<Rightarrow> unit act" where
  "load_config file =
     thenA (logger Debug (''Parsing default configuration from file '' @ name file))
       (case json_load file of
          Decoded config_params \<Rightarrow>
            block [
              install config_params ''receiver_default_config'' (\<lambda>v c. c\<lparr>fr_config := v\<rparr>),
              install config_params ''processor_default_config'' (\<lambda>v c. c\<lparr>fp_config := v\<rparr>),
              install config_params ''processor_plugins'' (\<lambda>v c. c\<lparr>fp_plugins := v\<rparr>)]
        | DecodeError e \<Rightarrow>
            logger Error (''Failed to parse configuration file: '' @ e)
        | LoadError err \<Rightarrow>
            raiseA err)"

definition ensure_config_section :: "ref \<Rightarrow> string \<Rightarrow> unit act" where
  "ensure_config_section config section =
     bindA (deref config) (\<lambda>obj.
     bindA (liftE (py_contains section obj)) (\<lambda>present.
       if \<not> present
       then bindA (liftE (py_setitem obj section (JObj []))) (\<lambda>obj'.
            thenA (mutate config obj')
                  (logger Debug (''Created '' @ section @ '' section in config params'')))
       else returnA ()))"

definition set_num_frames :: "int \<Rightarrow> unit act" where
  "set_num_frames n =
     block [
       modify (\<lambda>c. c\<lparr>frames := n\<rparr>),
       ensure_config_section (FpConfig, []) ''hdf'',
       assign (FpConfig, [''hdf'']) ''frames'' (JInt n)]"

definition set_file_path :: "string \<Rightarrow> unit act" where
  "set_file_path p =
     block [
       modify (\<lambda>c. c\<lparr>file_path := p\<rparr>),
       ensure_config_section (FpConfig, []) ''hdf'',
       ensure_config_section (FpConfig, [''hdf'']) ''file'',
       assign (FpConfig, [''hdf'', ''file'']) ''path'' (JStr p)]"

definition set_file_name :: "string \<Rightarrow> unit act" where
  "set_file_name f =
     block [
       modify (\<lambda>c. c\<lparr>file_name := f\<rparr>),
       ensure_config_section (FpConfig, []) ''hdf'',
       ensure_config_section (FpConfig, [''hdf'']) ''file'',
       assign (FpConfig, [''hdf'', ''file'']) ''name'' (JStr f)]"

text \<open>The dict \<^verbatim>\<open>rdtype_map\<close> and the subscript \<^verbatim>\<open>rdtype_map[bitdepth]\<close>.\<close>

definition rdtype_map :: "(int \<times> int) list" where
  "rdtype_map = [(1, 0), (6, 0), (12, 1), (24, 2)]"

definition rdtype_lookup :: "int \<Rightarrow> error + int" where
  "rdtype_lookup bitdepth =
     (case map_of rdtype_map bitdepth of
        None \<Rightarrow> Inl (KeyError (JInt bitdepth))
      | Some rdtype \<Rightarrow> Inr rdtype)"

definition set_bitdepth :: "int \<Rightarrow> unit act" where
  "set_bitdepth bitdepth =
     bindA (liftE (format_d bitdepth)) (\<lambda>formatted.
      let bitdepth_str = formatted @ ''-bit'' in
      block [
        ensure_config_section (FrConfig, []) ''decoder_config'',
        assign (FrConfig, [''decoder_config'']) ''bitdepth'' (JStr bitdepth_str),
        ensure_config_section (FpConfig, []) ''excalibur'',
        assign (FpConfig, [''excalibur'']) ''bitdepth'' (JStr bitdepth_str),
        bindA (liftE (rdtype_lookup bitdepth)) (\<lambda>rdtype.
          block [
            ensure_config_section (FpConfig, []) ''hdf'',
            ensure_config_section (FpConfig, [''hdf'']) ''dataset'',
            ensure_config_section (FpConfig, [''hdf'', ''dataset'']) ''data'',
            assign (FpConfig, [''hdf'', ''dataset'', ''data'']) ''datatype'' (JInt rdtype)])])"

text \<open>
  The length of a list is far below the limit of the conversion, so the log record of
  \<^verbatim>\<open>do_config_cmd\<close> below formats it with \<open>show_int\<close>.
\<close>

text \<open>
  \<^verbatim>\<open>_next_msg_id\<close>, and \<^verbatim>\<open>_send_cmd\<close>: the message goes out, then
  \<^verbatim>\<open>channel.poll\<close> waits up to the timeout, and the transport \<open>net\<close> decides
  whether that wait ends with a reply (\<open>Some\<close>) or without one (\<open>None\<close>).
\<close>

definition next_msg_id :: "int act" where
  "next_msg_id =
     thenA (modify (\<lambda>c. c\<lparr>msg_counter := (msg_counter c + 1) mod MESSAGE_ID_MAX\<rparr>))
           (reading msg_counter)"

definition poll :: "(nat \<Rightarrow> reply option) \<Rightarrow> reply option act" where
  "poll net c = (Inr (net (polls c)), c\<lparr>polls := Suc (polls c)\<rparr>)"

definition send_cmd :: "(nat \<Rightarrow> reply option) \<Rightarrow> channel \<Rightarrow> string \<Rightarrow> json option \<Rightarrow> reply option act" where
  "send_cmd net ch cmd ps =
     bindA next_msg_id (\<lambda>i.
       let cmd_msg = \<lparr> msg_type = ''cmd'', msg_val = cmd, msg_id = i, params = None \<rparr>;
           cmd_msg = (case ps of
                        None \<Rightarrow> cmd_msg
                      | Some p \<Rightarrow> if truthy p then cmd_msg\<lparr>params := Some p\<rparr> else cmd_msg)
       in thenA (emit (Send ch cmd_msg)) (poll net))"

definition send_config_cmd :: "(nat \<Rightarrow> reply option) \<Rightarrow> channel \<Rightarrow> json \<Rightarrow> reply option act" where
  "send_config_cmd net ch ps = send_cmd net ch ''configure'' (Some ps)"

definition send_status_cmd :: "(nat \<Rightarrow> reply option) \<Rightarrow> channel \<Rightarrow> reply option act" where
  "send_status_cmd net ch = send_cmd net ch ''status'' None"

definition discard :: "'a act \<Rightarrow> unit act" where
  "discard m = bindA m (\<lambda>_. returnA ())"

definition got_response :: "reply option \<Rightarrow> unit act" where
  "got_response r =
     (case r of
        None \<Rightarrow> returnA ()
      | Some rep \<Rightarrow> logger Info (''Got response: '' @ reply_text rep))"

text \<open>
  \<^verbatim>\<open>do_config_cmd\<close>, its five parts in the order of the source: the receiver
  tree, the \<^verbatim>\<open>fr_setup\<close> entry when the processor tree has one, the ten rounds
  of the status loop (\<open>status_round\<close> is one round), the plugin chain, the processor
  tree.
\<close>

definition status_round :: "(nat \<Rightarrow> reply option) \<Rightarrow> unit act" where
  "status_round net =
     bindA (send_status_cmd net FpCtrl) (\<lambda>status_reply.
       case status_reply of
         None \<Rightarrow> returnA ()
       | Some rep \<Rightarrow>
           bindA (liftE (get_param rep ''shared_memory'')) (\<lambda>v.
           thenA (emit (Print v)) (emit (Sleep 200))))"

definition config_receiver :: "(nat \<Rightarrow> reply option) \<Rightarrow> unit act" where
  "config_receiver net =
     thenA (logger Info ''Sending configuration command to frame receiver'')
           (bindA (reading fr_config) (\<lambda>t. discard (send_config_cmd net FrCtrl t)))"

definition config_fr_setup :: "(nat \<Rightarrow> reply option) \<Rightarrow> unit act" where
  "config_fr_setup net =
     bindA (reading fp_config) (\<lambda>t.
     bindA (liftE (py_contains ''fr_setup'' t)) (\<lambda>present.
       if present
       then thenA (logger Info ''Sending receiver plugin configuration command to frame processor'')
              (bindA (liftE (py_getitem t ''fr_setup'')) (\<lambda>v.
                 discard (send_config_cmd net FpCtrl (JObj [(''fr_setup'', v)]))))
       else returnA ()))"

definition config_plugins :: "(nat \<Rightarrow> reply option) \<Rightarrow> unit act" where
  "config_plugins net =
     bindA (reading fp_plugins) (\<lambda>plugins.
     bindA (liftE (py_len plugins)) (\<lambda>n.
       if n \<noteq> 0
       then thenA (logger Info (''Sending '' @ show_int (int n)
                      @ '' plugin chain configuration commands to frame processor''))
              (bindA (liftE (py_iter plugins)) (\<lambda>items.
                 for_each items (\<lambda>plugin. discard (send_config_cmd net FpCtrl plugin))))
       else returnA ()))"

definition config_processor :: "(nat \<Rightarrow> reply option) \<Rightarrow> unit act" where
  "config_processor net =
     thenA (logger Info ''Sending plugin parameter configuration command to frame processor'')
           (bindA (reading fp_config) (\<lambda>t. discard (send_config_cmd net FpCtrl t)))"

definition do_config_cmd :: "(nat \<Rightarrow> reply option) \<Rightarrow> unit act" where
  "do_config_cmd net =
     block [
       config_receiver net,
       config_fr_setup net,
       for_range 10 (status_round net),
       config_plugins net,
       config_processor net]"

definition set_file_writing :: "(nat \<Rightarrow> reply option) \<Rightarrow> bool \<Rightarrow> unit act" where
  "set_file_writing net enable =
     block [
       bindA (reading file_name) set_file_name,
       bindA (reading file_path) set_file_path,
       bindA (reading frames) set_num_frames,
       bindA (reading frames) (\<lambda>n. assign (FpConfig, [''hdf'']) ''frames'' (JInt n)),
       assign (FpConfig, [''hdf'']) ''write'' (JBool enable),
       logger Info (''Sending file writing '' @ (if enable then ''enable'' else ''disable'')
                      @ '' command to frame processor''),
       bindA (deref (FpConfig, [''hdf''])) (\<lambda>hdf.
         discard (send_config_cmd net FpCtrl (JObj [(''hdf'', hdf)])))]"

text \<open>\<^verbatim>\<open>self.channels\<close>, and the methods that go round both channels.\<close>

definition channels :: "(string \<times> channel) list" where
  "channels = [(''receiver'', FrCtrl), (''processor'', FpCtrl)]"

definition do_status_cmd :: "(nat \<Rightarrow> reply option) \<Rightarrow> unit act" where
  "do_status_cmd net =
     for_each channels (\<lambda>(nm, ch).
       thenA (logger Info (''Sending status request to frame '' @ nm))
             (bindA (send_status_cmd net ch) got_response))"

definition do_cmd :: "(nat \<Rightarrow> reply option) \<Rightarrow> string \<Rightarrow> string \<Rightarrow> unit act" where
  "do_cmd net cmd cmd_name =
     for_each channels (\<lambda>(nm, ch).
       thenA (logger Info (''Sending '' @ cmd_name @ '' command to frame '' @ nm))
             (bindA (send_cmd net ch cmd None) got_response))"

definition do_request_config_cmd :: "(nat \<Rightarrow> reply option) \<Rightarrow> unit act" where
  "do_request_config_cmd net = do_cmd net ''request_configuration'' ''configuration request''"

definition do_request_version_cmd :: "(nat \<Rightarrow> reply option) \<Rightarrow> unit act" where
  "do_request_version_cmd net = do_cmd net ''request_version'' ''version request''"

definition do_reset_stats_cmd :: "(nat \<Rightarrow> reply option) \<Rightarrow> unit act" where
  "do_reset_stats_cmd net = do_cmd net ''reset_statistics'' ''statistics reset''"

definition do_shutdown_cmd :: "(nat \<Rightarrow> reply option) \<Rightarrow> unit act" where
  "do_shutdown_cmd net =
     block [
       logger Info ''Sending shutdown command to frame receiver'',
       bindA (send_cmd net FrCtrl ''shutdown'' None) got_response,
       logger Info ''Sending shutdown config request to frame processor'',
       bindA (send_config_cmd net FpCtrl (JObj [(''shutdown'', JBool True)])) got_response]"

subsection \<open>Calling the id generator repeatedly\<close>

text \<open>The values that \<open>n\<close> successive calls of \<^verbatim>\<open>_next_msg_id\<close> return.\<close>

fun msg_ids :: "nat \<Rightarrow> client \<Rightarrow> int list" where
  "msg_ids 0 c = []"
| "msg_ids (Suc n) c =
     (case next_msg_id c of
        (Inr i, c') \<Rightarrow> i # msg_ids n c'
      | (Inl e, c') \<Rightarrow> [])"

subsection \<open>Reading the trace\<close>

text \<open>
  The events a statement adds to the trace when run from \<open>c\<close>, the messages among
  them, and a transport on which every wait ends without a reply.
\<close>

definition emitted :: "'a act \<Rightarrow> client \<Rightarrow> event list" where
  "emitted m c = drop (length (trace c)) (trace (snd (m c)))"

fun is_send :: "event \<Rightarrow> bool" where
  "is_send (Send ch m) = True"
| "is_send (Log lv text) = False"
| "is_send (Print v) = False"
| "is_send (Sleep ms) = False"

definition no_reply :: "nat \<Rightarrow> reply option" where
  "no_reply n = None"

subsection \<open>Status requests and pauses in a trace\<close>

text \<open>
  The status requests to the processor and the pauses of a trace, in order;
  \<open>round_steps net k\<close> is one status request, followed by a pause of 200 ms when the
  transport answers wait number \<open>k\<close> with a reply. \<open>ready_from k\<close> is a transport
  whose waits time out before wait \<open>k\<close> and bring a reply with a
  \<^verbatim>\<open>shared_memory\<close> entry from then on.
\<close>

datatype settle_step = StatusRequest | Pause nat

fun settle_step_of :: "event \<Rightarrow> settle_step option" where
  "settle_step_of (Send FpCtrl m) = (if msg_val m = ''status'' then Some StatusRequest else None)"
| "settle_step_of (Send FrCtrl m) = None"
| "settle_step_of (Sleep ms) = Some (Pause ms)"
| "settle_step_of (Log lv text) = None"
| "settle_step_of (Print v) = None"

definition settle_steps :: "event list \<Rightarrow> settle_step list" where
  "settle_steps evs = List.map_filter settle_step_of evs"

definition round_steps :: "(nat \<Rightarrow> reply option) \<Rightarrow> nat \<Rightarrow> settle_step list" where
  "round_steps net k = StatusRequest # (case net k of None \<Rightarrow> [] | Some rep \<Rightarrow> [Pause 200])"

definition ready_from :: "nat \<Rightarrow> nat \<Rightarrow> reply option" where
  "ready_from k n =
     (if n < k then None
      else Some \<lparr>reply_text = ''status'', reply_params = [(''shared_memory'', JBool True)]\<rparr>)"

subsection \<open>Sections and leaves of a tree\<close>

text \<open>
  A section is a mapping. \<open>section_at t p\<close>: the path \<open>p\<close> leads to a section of \<open>t\<close>.
  \<open>writable t w\<close>: nothing stands in the way of writing the leaf \<open>w\<close>, that is, every
  proper initial part of \<open>w\<close> either leads to a section or leads nowhere yet.
  \<open>leaf_agrees t w v\<close>: the leaf \<open>w\<close>, when \<open>t\<close> has it, holds \<open>v\<close>.
\<close>

fun is_section :: "json \<Rightarrow> bool" where
  "is_section (JObj kvs) = True"
| "is_section JNull = False"
| "is_section (JBool b) = False"
| "is_section (JInt i) = False"
| "is_section (JFloat m e) = False"
| "is_section (JStr s) = False"
| "is_section (JArr xs) = False"

definition section_at :: "json \<Rightarrow> string list \<Rightarrow> bool" where
  "section_at t p = (case lookup_path t p of None \<Rightarrow> False | Some v \<Rightarrow> is_section v)"

definition absent_or_section :: "json \<Rightarrow> string list \<Rightarrow> bool" where
  "absent_or_section t p = (case lookup_path t p of None \<Rightarrow> True | Some v \<Rightarrow> is_section v)"

definition writable :: "json \<Rightarrow> string list \<Rightarrow> bool" where
  "writable t w = list_all (absent_or_section t) (butlast (prefixes w))"

definition leaf_agrees :: "json \<Rightarrow> string list \<Rightarrow> json \<Rightarrow> bool" where
  "leaf_agrees t w v = (case lookup_path t w of None \<Rightarrow> True | Some u \<Rightarrow> u = v)"

text \<open>
  The statements by which every setter writes a leaf below \<open>p\<close>: each section on the way
  is ensured, from the top down, and the last key is assigned.
\<close>

fun write_leaf :: "tree \<Rightarrow> string list \<Rightarrow> string list \<Rightarrow> json \<Rightarrow> unit act" where
  "write_leaf tr p [] v = returnA ()"
| "write_leaf tr p [k] v = assign (tr, p) k v"
| "write_leaf tr p (k # ks) v =
     thenA (ensure_config_section (tr, p) k) (write_leaf tr (p @ [k]) ks v)"

subsection \<open>The operations of the client\<close>

text \<open>
  The methods that \<^verbatim>\<open>run\<close> calls, as values, and \<open>perform\<close> to call one.
  \<open>written\<close> lists the leaves a setter assigns. \<open>projection\<close> says that the three
  leaves of the processor tree that mirror the session fields hold the values of those
  fields, as far as the tree has them.
\<close>

datatype operation =
    LoadConfig config_file
  | SetNumFrames int
  | SetBitdepth int
  | SetFilePath string
  | SetFileName string
  | DoConfigCmd
  | SetFileWriting bool
  | DoStatusCmd
  | DoRequestConfigCmd
  | DoRequestVersionCmd
  | DoResetStatsCmd
  | DoShutdownCmd

fun perform :: "(nat \<Rightarrow> reply option) \<Rightarrow> operation \<Rightarrow> unit act" where
  "perform net (LoadConfig file) = load_config file"
| "perform net (SetNumFrames n) = set_num_frames n"
| "perform net (SetBitdepth b) = set_bitdepth b"
| "perform net (SetFilePath p) = set_file_path p"
| "perform net (SetFileName f) = set_file_name f"
| "perform net DoConfigCmd = do_config_cmd net"
| "perform net (SetFileWriting enable) = set_file_writing net enable"
| "perform net DoStatusCmd = do_status_cmd net"
| "perform net DoRequestConfigCmd = do_request_config_cmd net"
| "perform net DoRequestVersionCmd = do_request_version_cmd net"
| "perform net DoResetStatsCmd = do_reset_stats_cmd net"
| "perform net DoShutdownCmd = do_shutdown_cmd net"

fun is_load_config :: "operation \<Rightarrow> bool" where
  "is_load_config (LoadConfig file) = True"
| "is_load_config (SetNumFrames n) = False"
| "is_load_config (SetBitdepth b) = False"
| "is_load_config (SetFilePath p) = False"
| "is_load_config (SetFileName f) = False"
| "is_load_config DoConfigCmd = False"
| "is_load_config (SetFileWriting enable) = False"
| "is_load_config DoStatusCmd = False"
| "is_load_config DoRequestConfigCmd = False"
| "is_load_config DoRequestVersionCmd = False"
| "is_load_config DoResetStatsCmd = False"
| "is_load_config DoShutdownCmd = False"

fun written :: "operation \<Rightarrow> (tree \<times> string list) list" where
  "written (SetNumFrames n) = [(FpConfig, [''hdf'', ''frames''])]"
| "written (SetFilePath p) = [(FpConfig, [''hdf'', ''file'', ''path''])]"
| "written (SetFileName f) = [(FpConfig, [''hdf'', ''file'', ''name''])]"
| "written (SetBitdepth b) =
     [(FrConfig, [''decoder_config'', ''bitdepth'']),
      (FpConfig, [''excalibur'', ''bitdepth'']),
      (FpConfig, [''hdf'', ''dataset'', ''data'', ''datatype''])]"
| "written (SetFileWriting enable) =
     [(FpConfig, [''hdf'', ''file'', ''name'']),
      (FpConfig, [''hdf'', ''file'', ''path'']),
      (FpConfig, [''hdf'', ''frames'']),
      (FpConfig, [''hdf'', ''write''])]"
| "written (LoadConfig file) = []"
| "written DoConfigCmd = []"
| "written DoStatusCmd = []"
| "written DoRequestConfigCmd = []"
| "written DoRequestVersionCmd = []"
| "written DoResetStatsCmd = []"
| "written DoShutdownCmd = []"

definition projection :: "client \<Rightarrow> bool" where
  "projection c =
     (leaf_agrees (fp_config c) [''hdf'', ''frames''] (JInt (frames c))
      \<and> leaf_agrees (fp_config c) [''hdf'', ''file'', ''path''] (JStr (file_path c))
      \<and> leaf_agrees (fp_config c) [''hdf'', ''file'', ''name''] (JStr (file_name c)))"

subsection \<open>Setters\<close>

text \<open>
  The setters, the three of them that set a session field, and the calls whose bit
  depth is in the table. \<open>sections_ok\<close>: on the way to every leaf that a setter writes
  there is nothing but sections. \<open>session_after\<close> is the effect of a call on the three
  session fields (frames, path, name) taken by themselves.
\<close>

fun is_setter :: "operation \<Rightarrow> bool" where
  "is_setter (SetNumFrames n) = True"
| "is_setter (SetBitdepth b) = True"
| "is_setter (SetFilePath p) = True"
| "is_setter (SetFileName f) = True"
| "is_setter (SetFileWriting enable) = True"
| "is_setter (LoadConfig file) = False"
| "is_setter DoConfigCmd = False"
| "is_setter DoStatusCmd = False"
| "is_setter DoRequestConfigCmd = False"
| "is_setter DoRequestVersionCmd = False"
| "is_setter DoResetStatsCmd = False"
| "is_setter DoShutdownCmd = False"

fun is_session_setter :: "operation \<Rightarrow> bool" where
  "is_session_setter (SetNumFrames n) = True"
| "is_session_setter (SetFilePath p) = True"
| "is_session_setter (SetFileName f) = True"
| "is_session_setter (SetBitdepth b) = False"
| "is_session_setter (SetFileWriting enable) = False"
| "is_session_setter (LoadConfig file) = False"
| "is_session_setter DoConfigCmd = False"
| "is_session_setter DoStatusCmd = False"
| "is_session_setter DoRequestConfigCmd = False"
| "is_session_setter DoRequestVersionCmd = False"
| "is_session_setter DoResetStatsCmd = False"
| "is_session_setter DoShutdownCmd = False"

fun supported :: "operation \<Rightarrow> bool" where
  "supported (SetBitdepth b) = (b = 1 \<or> b = 6 \<or> b = 12 \<or> b = 24)"
| "supported (SetNumFrames n) = True"
| "supported (SetFilePath p) = True"
| "supported (SetFileName f) = True"
| "supported (SetFileWriting enable) = True"
| "supported (LoadConfig file) = True"
| "supported DoConfigCmd = True"
| "supported DoStatusCmd = True"
| "supported DoRequestConfigCmd = True"
| "supported DoRequestVersionCmd = True"
| "supported DoResetStatsCmd = True"
| "supported DoShutdownCmd = True"

definition sections_ok :: "client \<Rightarrow> bool" where
  "sections_ok c =
     (writable (fr_config c) [''decoder_config'', ''bitdepth'']
      \<and> writable (fp_config c) [''excalibur'', ''bitdepth'']
      \<and> writable (fp_config c) [''hdf'', ''dataset'', ''data'', ''datatype'']
      \<and> writable (fp_config c) [''hdf'', ''file'', ''path''])"

fun session_after :: "operation \<Rightarrow> int \<times> string \<times> string \<Rightarrow> int \<times> string \<times> string" where
  "session_after (SetNumFrames n) (fr, pa, na) = (n, pa, na)"
| "session_after (SetFilePath p) (fr, pa, na) = (fr, p, na)"
| "session_after (SetFileName f) (fr, pa, na) = (fr, pa, f)"
| "session_after (SetBitdepth b) s = s"
| "session_after (SetFileWriting enable) s = s"
| "session_after (LoadConfig file) s = s"
| "session_after DoConfigCmd s = s"
| "session_after DoStatusCmd s = s"
| "session_after DoRequestConfigCmd s = s"
| "session_after DoRequestVersionCmd s = s"
| "session_after DoResetStatsCmd s = s"
| "session_after DoShutdownCmd s = s"

section \<open>Properties\<close>

lemmas act_defs =
  returnA_def raiseA_def bindA_def thenA_def liftE_def reading_def modify_def emit_def
  logger_def discard_def

subsection \<open>The message id generator\<close>

lemma next_msg_id_eq:
  "next_msg_id c =
     (Inr ((msg_counter c + 1) mod 2 ^ 32), c\<lparr>msg_counter := (msg_counter c + 1) mod 2 ^ 32\<rparr>)"
  by (simp add: next_msg_id_def act_defs MESSAGE_ID_MAX_def)

lemma msg_ids_from:
  "msg_ids n c = map (\<lambda>k. (msg_counter c + int k) mod 2 ^ 32) [1..<Suc n]"
proof (induction n arbitrary: c)
  case 0
  show ?case by simp
next
  case (Suc n)
  have shift: "[1..<Suc (Suc n)] = 1 # map Suc [1..<Suc n]"
    by (metis One_nat_def map_Suc_upt upt_conv_Cons zero_less_Suc Suc_less_eq)
  have step: "((msg_counter c + 1) mod 2 ^ 32 + int k) mod 2 ^ 32
               = (msg_counter c + int (Suc k)) mod (2 ^ 32 :: int)" for k
  proof -
    have "((msg_counter c + 1) mod 2 ^ 32 + int k) mod 2 ^ 32
            = ((msg_counter c + 1) + int k) mod (2 ^ 32 :: int)"
      by (rule mod_add_left_eq)
    also have "(msg_counter c + 1) + int k = msg_counter c + int (Suc k)"
      by simp
    finally show ?thesis .
  qed
  have "msg_ids (Suc n) c
          = (msg_counter c + 1) mod 2 ^ 32
            # map (\<lambda>k. ((msg_counter c + 1) mod 2 ^ 32 + int k) mod 2 ^ 32) [1..<Suc n]"
    by (simp add: next_msg_id_eq Suc.IH del: upt_Suc)
  also have "\<dots> = map (\<lambda>k. (msg_counter c + int k) mod 2 ^ 32) [1..<Suc (Suc n)]"
    unfolding shift step by (simp add: comp_def del: upt_Suc)
  finally show ?case .
qed

lemma msg_ids_init_nth:
  assumes "i < n"
  shows "msg_ids n init_client ! i = int (Suc i) mod 2 ^ 32"
proof -
  have "msg_ids n init_client ! i = (\<lambda>k. int k mod 2 ^ 32) ([1..<Suc n] ! i)"
    unfolding msg_ids_from using assms by (simp add: init_client_def del: upt_Suc)
  also have "[1..<Suc n] ! i = Suc i"
    using assms by (simp del: upt_Suc)
  finally show ?thesis .
qed

lemma msg_ids_no_repeat:
  assumes "i < j" and "j < i + 2 ^ 32" and "j < n"
  shows "msg_ids n init_client ! i \<noteq> msg_ids n init_client ! j"
proof
  assume eq: "msg_ids n init_client ! i = msg_ids n init_client ! j"
  have "int (Suc i) mod 2 ^ 32 = int (Suc j) mod 2 ^ 32"
    using eq assms by (simp add: msg_ids_init_nth)
  then have "(int (Suc j) - int (Suc i)) mod 2 ^ 32 = 0"
    by (metis mod_diff_cong mod_self diff_self mod_0)
  moreover have "0 < int (Suc j) - int (Suc i)" "int (Suc j) - int (Suc i) < 2 ^ 32"
    using assms by simp_all
  ultimately show False
    by (simp add: mod_pos_pos_trivial)
qed

text \<open>
  C6. The counter starts at 0. A call of \<^verbatim>\<open>_next_msg_id\<close> returns the counter plus
  one modulo \<open>2^32\<close> and stores that value. From the initial state the first call
  returns 1 and the calls return \<open>1 mod 2^32, 2 mod 2^32, ...\<close> in turn, so the ids run
  \<open>1, 2, ..., 2^32 - 1, 0, 1, ...\<close>; two calls fewer than \<open>2^32\<close> apart never return
  the same id.
\<close>

theorem next_msg_id_sequence:
  assumes "i < j" and "j < i + 2 ^ 32" and "j < n"
  shows "msg_counter init_client = 0
       \<and> next_msg_id c =
           (Inr ((msg_counter c + 1) mod 2 ^ 32),
            c\<lparr>msg_counter := (msg_counter c + 1) mod 2 ^ 32\<rparr>)
       \<and> msg_ids 1 init_client = [1]
       \<and> msg_ids n init_client = map (\<lambda>k. int k mod 2 ^ 32) [1..<Suc n]
       \<and> msg_ids n init_client ! i \<noteq> msg_ids n init_client ! j"
proof -
  have "msg_ids n init_client = map (\<lambda>k. int k mod 2 ^ 32) [1..<Suc n]" for n
    unfolding msg_ids_from by (simp add: init_client_def del: upt_Suc)
  moreover have "msg_ids 1 init_client = [1]"
    unfolding msg_ids_from by (simp add: init_client_def)
  ultimately show ?thesis
    using msg_ids_no_repeat [OF assms] next_msg_id_eq [of c]
    by (simp add: init_client_def del: upt_Suc)
qed

theorem next_msg_id_sequence_witness:
  "msg_ids 3 init_client = [1, 2, 3]
   \<and> msg_ids 3 init_client ! 0 \<noteq> msg_ids 3 init_client ! 2
   \<and> next_msg_id (init_client\<lparr>msg_counter := 2 ^ 32 - 1\<rparr>)
       = (Inr 0, init_client\<lparr>msg_counter := 0\<rparr>)"
  using next_msg_id_sequence [of 0 2 3 "init_client\<lparr>msg_counter := 2 ^ 32 - 1\<rparr>"]
  by (simp add: init_client_def upt_rec)

subsection \<open>Sending\<close>

lemma send_cmd_eq:
  "send_cmd net ch cmd ps c =
     (Inr (net (polls c)),
      c\<lparr>msg_counter := (msg_counter c + 1) mod 2 ^ 32,
        trace := trace c @
          [Send ch \<lparr>msg_type = ''cmd'', msg_val = cmd,
                    msg_id = (msg_counter c + 1) mod 2 ^ 32,
                    params = (case ps of None \<Rightarrow> None
                              | Some p \<Rightarrow> if truthy p then Some p else None)\<rparr>],
        polls := Suc (polls c)\<rparr>)"
  by (simp add: send_cmd_def next_msg_id_def poll_def act_defs MESSAGE_ID_MAX_def Let_def
      split: option.splits)

lemma got_response_eq:
  "got_response r c =
     (Inr (), c\<lparr>trace := trace c @
        (case r of None \<Rightarrow> [] | Some rep \<Rightarrow> [Log Info (''Got response: '' @ reply_text rep)])\<rparr>)"
  by (simp add: got_response_def act_defs split: option.splits)

subsection \<open>Loading defaults\<close>

text \<open>
  C9. A document that \<^verbatim>\<open>json.load\<close> does not decode leaves the receiver tree,
  the processor tree and the plugin list as they were, whatever the exception. When the
  exception is \<^verbatim>\<open>JSONDecodeError\<close>, \<^verbatim>\<open>load_config\<close> returns normally and
  its only effect is two log records, the second one the error. Any other exception of
  \<^verbatim>\<open>json.load\<close> leaves \<^verbatim>\<open>load_config\<close> with that exception, after the
  first log record only: the failure is not logged.
\<close>

theorem load_config_malformed:
  "(json_load cfg = DecodeError e \<longrightarrow>
      load_config cfg c =
        (Inr (), c\<lparr>trace := trace c @
           [Log Debug (''Parsing default configuration from file '' @ name cfg),
            Log Error (''Failed to parse configuration file: '' @ e)]\<rparr>))
   \<and> (json_load cfg = LoadError err \<longrightarrow>
      load_config cfg c =
        (Inl err, c\<lparr>trace := trace c @
           [Log Debug (''Parsing default configuration from file '' @ name cfg)]\<rparr>))
   \<and> ((json_load cfg = DecodeError e \<or> json_load cfg = LoadError err) \<longrightarrow>
        fr_config (snd (load_config cfg c)) = fr_config c
      \<and> fp_config (snd (load_config cfg c)) = fp_config c
      \<and> fp_plugins (snd (load_config cfg c)) = fp_plugins c)"
  by (auto simp add: load_config_def act_defs)

theorem load_config_malformed_witness:
  "load_config \<lparr>name = ''defaults.json'', json_load = DecodeError ''Expecting value''\<rparr>
     init_client =
     (Inr (), init_client\<lparr>trace :=
        [Log Debug ''Parsing default configuration from file defaults.json'',
         Log Error ''Failed to parse configuration file: Expecting value'']\<rparr>)
   \<and> fp_config (snd (load_config
         \<lparr>name = ''defaults.json'', json_load = LoadError RecursionError\<rparr> init_client))
       = JObj []"
  using load_config_malformed
    [of "\<lparr>name = ''defaults.json'', json_load = DecodeError ''Expecting value''\<rparr>"
        "''Expecting value''" init_client RecursionError]
    load_config_malformed
    [of "\<lparr>name = ''defaults.json'', json_load = LoadError RecursionError\<rparr>"
        "''Expecting value''" init_client RecursionError]
  by (simp add: init_client_def)

text \<open>
  The document of the counterexample is one whose bytes are not in the encoding of the
  file: \<^verbatim>\<open>json.load\<close> raises \<^verbatim>\<open>UnicodeDecodeError\<close>, which the handler of
  \<^verbatim>\<open>load_config\<close> does not take. The call ends with the exception and the trace
  holds the first log record alone.
\<close>

theorem load_config_unlogged_counterexample:
  "load_config \<lparr>name = ''defaults.json'', json_load = LoadError UnicodeDecodeError\<rparr>
     init_client =
     (Inl UnicodeDecodeError, init_client\<lparr>trace :=
        [Log Debug ''Parsing default configuration from file defaults.json'']\<rparr>)"
  by (simp add: load_config_def act_defs init_client_def)

subsection \<open>Shutdown\<close>

text \<open>
  C10. \<^verbatim>\<open>do_shutdown_cmd\<close> returns normally and sends exactly two messages, whatever
  the transport answers: first \<^verbatim>\<open>shutdown\<close> without parameters on the receiver
  channel, then \<^verbatim>\<open>configure\<close> with parameters \<^verbatim>\<open>{"shutdown": true}\<close> on the
  processor channel. Neither is sent a second time.
\<close>

theorem do_shutdown_cmd_sends:
  "fst (do_shutdown_cmd net c) = Inr ()
   \<and> filter is_send (emitted (do_shutdown_cmd net) c) =
       [Send FrCtrl \<lparr>msg_type = ''cmd'', msg_val = ''shutdown'',
                     msg_id = (msg_counter c + 1) mod 2 ^ 32, params = None\<rparr>,
        Send FpCtrl \<lparr>msg_type = ''cmd'', msg_val = ''configure'',
                     msg_id = ((msg_counter c + 1) mod 2 ^ 32 + 1) mod 2 ^ 32,
                     params = Some (JObj [(''shutdown'', JBool True)])\<rparr>]"
  by (simp add: do_shutdown_cmd_def send_config_cmd_def send_cmd_eq got_response_eq emitted_def
      act_defs split: option.splits)

theorem do_shutdown_cmd_sends_witness:
  "filter is_send (emitted (do_shutdown_cmd no_reply) init_client) =
       [Send FrCtrl \<lparr>msg_type = ''cmd'', msg_val = ''shutdown'', msg_id = 1, params = None\<rparr>,
        Send FpCtrl \<lparr>msg_type = ''cmd'', msg_val = ''configure'', msg_id = 2,
                     params = Some (JObj [(''shutdown'', JBool True)])\<rparr>]"
  using do_shutdown_cmd_sends [of no_reply init_client]
  by (simp add: init_client_def)

subsection \<open>Push configuration\<close>

lemma settle_steps_append [simp]:
  "settle_steps (xs @ ys) = settle_steps xs @ settle_steps ys"
  by (simp add: settle_steps_def map_filter_def)

lemma settle_steps_simps [simp]:
  "settle_steps [] = []"
  "settle_steps (ev # evs) =
     (case settle_step_of ev of None \<Rightarrow> settle_steps evs | Some s \<Rightarrow> s # settle_steps evs)"
  by (simp_all add: settle_steps_def map_filter_def split: option.splits)

lemma bindA_Inr: "m c = (Inr x, c') \<Longrightarrow> bindA m f c = f x c'"
  by (simp add: bindA_def)

lemma bindA_Inl: "m c = (Inl e, c') \<Longrightarrow> bindA m f c = (Inl e, c')"
  by (simp add: bindA_def)

lemma thenA_Inr: "m c = (Inr x, c') \<Longrightarrow> thenA m n c = n c'"
  by (simp add: thenA_def bindA_def)

lemma bindA_keeps:
  assumes "\<And>c. g (snd (m c)) = g c" and "\<And>x c. g (snd (f x c)) = g c"
  shows "g (snd (bindA m f c)) = g c"
proof (cases "m c")
  case (Pair r c')
  then have "g c' = g c" using assms(1) [of c] by simp
  then show ?thesis using Pair assms(2) by (cases r) (simp_all add: bindA_def)
qed

lemma thenA_keeps:
  assumes "\<And>c. g (snd (m c)) = g c" and "\<And>c. g (snd (n c)) = g c"
  shows "g (snd (thenA m n c)) = g c"
  unfolding thenA_def using assms by (rule bindA_keeps)

lemma for_each_keeps:
  assumes "\<And>x c. g (snd (body x c)) = g c"
  shows "g (snd (for_each xs body c)) = g c"
proof (induction xs arbitrary: c)
  case Nil
  show ?case by (simp add: returnA_def)
next
  case (Cons x xs)
  show ?case by (simp add: thenA_keeps assms Cons.IH)
qed

lemma status_round_eq:
  "status_round net c =
     (case net (polls c) of
        None \<Rightarrow>
          (Inr (), c\<lparr>msg_counter := (msg_counter c + 1) mod 2 ^ 32,
                    trace := trace c @
                      [Send FpCtrl \<lparr>msg_type = ''cmd'', msg_val = ''status'',
                                   msg_id = (msg_counter c + 1) mod 2 ^ 32, params = None\<rparr>],
                    polls := Suc (polls c)\<rparr>)
      | Some rep \<Rightarrow>
          (case get_param rep ''shared_memory'' of
             Inl e \<Rightarrow>
               (Inl e, c\<lparr>msg_counter := (msg_counter c + 1) mod 2 ^ 32,
                    trace := trace c @
                      [Send FpCtrl \<lparr>msg_type = ''cmd'', msg_val = ''status'',
                                   msg_id = (msg_counter c + 1) mod 2 ^ 32, params = None\<rparr>],
                    polls := Suc (polls c)\<rparr>)
           | Inr v \<Rightarrow>
               (Inr (), c\<lparr>msg_counter := (msg_counter c + 1) mod 2 ^ 32,
                    trace := trace c @
                      [Send FpCtrl \<lparr>msg_type = ''cmd'', msg_val = ''status'',
                                   msg_id = (msg_counter c + 1) mod 2 ^ 32, params = None\<rparr>,
                       Print v, Sleep 200],
                    polls := Suc (polls c)\<rparr>)))"
  by (simp add: status_round_def send_status_cmd_def send_cmd_eq act_defs
      split: option.splits sum.splits)

lemma status_round_step:
  assumes "\<And>rep. net (polls c) = Some rep \<Longrightarrow>
             get_param rep ''shared_memory'' \<noteq> Inl (IpcMessageException ''shared_memory'')"
  shows "\<exists>c1. status_round net c = (Inr (), c1)
       \<and> polls c1 = Suc (polls c)
       \<and> settle_steps (trace c1) = settle_steps (trace c) @ round_steps net (polls c)
       \<and> fp_config c1 = fp_config c \<and> fp_plugins c1 = fp_plugins c"
proof (cases "net (polls c)")
  case None
  then show ?thesis
    by (simp add: status_round_eq round_steps_def)
next
  case (Some rep)
  then obtain v where "get_param rep ''shared_memory'' = Inr v"
    using assms [of rep] by (cases "map_of (reply_params rep) ''shared_memory''") (simp_all add: get_param_def)
  then show ?thesis
    using Some by (simp add: status_round_eq round_steps_def)
qed



lemma upt_shift: "[0..<Suc n] = 0 # map Suc [0..<n]"
  by (simp add: upt_conv_Cons map_Suc_upt del: upt_Suc)

lemma status_loop:
  assumes "\<And>k rep. k < n \<Longrightarrow> net (polls c + k) = Some rep \<Longrightarrow>
             get_param rep ''shared_memory'' \<noteq> Inl (IpcMessageException ''shared_memory'')"
  shows "\<exists>c'. for_range n (status_round net) c = (Inr (), c')
       \<and> polls c' = polls c + n
       \<and> settle_steps (trace c')
           = settle_steps (trace c) @ concat (map (\<lambda>k. round_steps net (polls c + k)) [0..<n])
       \<and> fp_config c' = fp_config c \<and> fp_plugins c' = fp_plugins c"
  using assms
proof (induction n arbitrary: c)
  case 0
  show ?case by (simp add: returnA_def)
next
  case (Suc n)
  have first: "\<And>rep. net (polls c) = Some rep \<Longrightarrow>
             get_param rep ''shared_memory'' \<noteq> Inl (IpcMessageException ''shared_memory'')"
    using Suc.prems [of 0] by simp
  obtain c1 where round: "status_round net c = (Inr (), c1)"
    and p1: "polls c1 = Suc (polls c)"
    and s1: "settle_steps (trace c1) = settle_steps (trace c) @ round_steps net (polls c)"
    and t1: "fp_config c1 = fp_config c" "fp_plugins c1 = fp_plugins c"
    using status_round_step [OF first] by blast
  have "\<exists>c'. for_range n (status_round net) c1 = (Inr (), c')
       \<and> polls c' = polls c1 + n
       \<and> settle_steps (trace c')
           = settle_steps (trace c1) @ concat (map (\<lambda>k. round_steps net (polls c1 + k)) [0..<n])
       \<and> fp_config c' = fp_config c1 \<and> fp_plugins c' = fp_plugins c1"
  proof (rule Suc.IH)
    fix k rep
    assume "k < n" and "net (polls c1 + k) = Some rep"
    then show "get_param rep ''shared_memory'' \<noteq> Inl (IpcMessageException ''shared_memory'')"
      using Suc.prems [of "Suc k" rep] by (simp add: p1)
  qed
  then obtain c' where loop: "for_range n (status_round net) c1 = (Inr (), c')"
    and p': "polls c' = polls c1 + n"
    and s': "settle_steps (trace c')
           = settle_steps (trace c1) @ concat (map (\<lambda>k. round_steps net (polls c1 + k)) [0..<n])"
    and t': "fp_config c' = fp_config c1" "fp_plugins c' = fp_plugins c1"
    by blast
  have a: "for_range (Suc n) (status_round net) c = (Inr (), c')"
    using round loop by (simp add: thenA_Inr)
  have b: "polls c' = polls c + Suc n"
    using p' p1 by simp
  have "concat (map (\<lambda>k. round_steps net (polls c + k)) [0..<Suc n])
          = round_steps net (polls c) @ concat (map (\<lambda>k. round_steps net (polls c1 + k)) [0..<n])"
    unfolding upt_shift by (simp add: comp_def p1 del: upt_Suc)
  then have d: "settle_steps (trace c')
           = settle_steps (trace c) @ concat (map (\<lambda>k. round_steps net (polls c + k)) [0..<Suc n])"
    using s' s1 by (simp del: upt_Suc)
  have e: "fp_config c' = fp_config c" "fp_plugins c' = fp_plugins c"
    using t' t1 by simp_all
  show ?case
    by (rule exI [of _ c']) (intro conjI a b d e)
qed


lemma logger_eq: "logger lv text c = (Inr (), c\<lparr>trace := trace c @ [Log lv text]\<rparr>)"
  by (simp add: act_defs)

lemma send_config_cmd_keeps_steps:
  "settle_steps (trace (snd (discard (send_config_cmd net ch ps) c))) = settle_steps (trace c)"
  by (cases ch) (simp_all add: discard_def bindA_def returnA_def send_config_cmd_def send_cmd_eq)

lemma liftE_state: "snd (liftE r c) = c"
  by (cases r) (simp_all add: act_defs)

lemma config_plugins_keeps_steps:
  "settle_steps (trace (snd (config_plugins net c))) = settle_steps (trace c)"
  unfolding config_plugins_def
  by (intro bindA_keeps [where g = "\<lambda>c. settle_steps (trace c)"]
            thenA_keeps [where g = "\<lambda>c. settle_steps (trace c)"])
     (auto simp add: reading_def liftE_state logger_eq returnA_def send_config_cmd_keeps_steps
        intro!: bindA_keeps [where g = "\<lambda>c. settle_steps (trace c)"]
            thenA_keeps [where g = "\<lambda>c. settle_steps (trace c)"]
            for_each_keeps [where g = "\<lambda>c. settle_steps (trace c)"])

lemma config_processor_keeps_steps:
  "settle_steps (trace (snd (config_processor net c))) = settle_steps (trace c)"
  unfolding config_processor_def
  by (intro bindA_keeps [where g = "\<lambda>c. settle_steps (trace c)"]
            thenA_keeps [where g = "\<lambda>c. settle_steps (trace c)"])
     (simp_all add: reading_def logger_eq send_config_cmd_keeps_steps)

lemma config_receiver_eq:
  "\<exists>c1. config_receiver net c = (Inr (), c1) \<and> polls c1 = Suc (polls c)
      \<and> settle_steps (trace c1) = settle_steps (trace c)
      \<and> fp_config c1 = fp_config c"
  by (simp add: config_receiver_def send_config_cmd_def send_cmd_eq act_defs)

lemma config_fr_setup_eq:
  assumes "fp_config c = JObj kvs"
  shows "\<exists>c1. config_fr_setup net c = (Inr (), c1)
      \<and> polls c1 = polls c + (if map_of kvs ''fr_setup'' = None then 0 else 1)
      \<and> settle_steps (trace c1) = settle_steps (trace c)
      \<and> fp_config c1 = fp_config c"
  using assms
  by (cases "map_of kvs ''fr_setup''")
     (simp_all add: config_fr_setup_def send_config_cmd_def send_cmd_eq act_defs)


lemma snd_thenA_keeps2:
  assumes "\<And>c. g (snd (m c)) = g c" and "\<And>c. g (snd (n c)) = g c"
  shows "g (snd (block [m, n] c)) = g c"
  by (simp add: thenA_keeps assms returnA_def)

lemma do_config_cmd_steps:
  assumes tree: "fp_config c = JObj kvs"
    and replies: "\<And>k rep. k < 10 \<Longrightarrow>
           net (polls c + (if map_of kvs ''fr_setup'' = None then 1 else 2) + k) = Some rep \<Longrightarrow>
           get_param rep ''shared_memory'' \<noteq> Inl (IpcMessageException ''shared_memory'')"
  shows "settle_steps (trace (snd (do_config_cmd net c))) =
           settle_steps (trace c) @
           concat (map (\<lambda>k. round_steps net
                     (polls c + (if map_of kvs ''fr_setup'' = None then 1 else 2) + k)) [0..<10])"
proof -
  obtain c1 where a: "config_receiver net c = (Inr (), c1)" and p1: "polls c1 = Suc (polls c)"
    and s1: "settle_steps (trace c1) = settle_steps (trace c)" and t1: "fp_config c1 = fp_config c"
    using config_receiver_eq [of net c] by blast
  obtain c2 where b: "config_fr_setup net c1 = (Inr (), c2)"
    and p2: "polls c2 = polls c1 + (if map_of kvs ''fr_setup'' = None then 0 else 1)"
    and s2: "settle_steps (trace c2) = settle_steps (trace c1)"
    using config_fr_setup_eq [of c1 kvs net] t1 tree by auto
  have first: "polls c2 = polls c + (if map_of kvs ''fr_setup'' = None then 1 else 2)"
    using p1 p2 by simp
  have "\<exists>c3. for_range 10 (status_round net) c2 = (Inr (), c3)
       \<and> polls c3 = polls c2 + 10
       \<and> settle_steps (trace c3)
           = settle_steps (trace c2) @ concat (map (\<lambda>k. round_steps net (polls c2 + k)) [0..<10])
       \<and> fp_config c3 = fp_config c2 \<and> fp_plugins c3 = fp_plugins c2"
  proof (rule status_loop)
    fix k rep
    assume "k < 10" and "net (polls c2 + k) = Some rep"
    then show "get_param rep ''shared_memory'' \<noteq> Inl (IpcMessageException ''shared_memory'')"
      using replies [of k rep] unfolding first by blast
  qed
  then obtain c3 where l: "for_range 10 (status_round net) c2 = (Inr (), c3)"
    and s3: "settle_steps (trace c3)
           = settle_steps (trace c2) @ concat (map (\<lambda>k. round_steps net (polls c2 + k)) [0..<10])"
    by blast
  have "do_config_cmd net c = block [config_plugins net, config_processor net] c3"
    unfolding do_config_cmd_def block.simps
    by (simp add: thenA_def bindA_def a b l)
  then have "settle_steps (trace (snd (do_config_cmd net c))) = settle_steps (trace c3)"
    by (simp only: snd_thenA_keeps2 [where g = "\<lambda>c. settle_steps (trace c)",
          OF config_plugins_keeps_steps config_processor_keeps_steps])
  then show ?thesis
    unfolding s3 s2 s1 first .
qed

lemma count_round_steps:
  "length (filter (\<lambda>s. s = StatusRequest) (concat (map (\<lambda>k. round_steps net (f k)) ks)))
     = length ks"
  by (induction ks) (simp_all add: round_steps_def split: option.splits)

lemma upt_10: "[0..<10] = [0, 1, 2, 3, 4, 5, 6, 7, 8, 9]"
  by (simp add: upt_conv_Cons)

text \<open>
  C1, as the code has it. When the processor tree is a mapping and every reply that
  arrives during the status loop has a \<^verbatim>\<open>shared_memory\<close> entry,
  \<^verbatim>\<open>do_config_cmd\<close> adds exactly ten status requests to the processor to the
  trace; a request whose wait brought a reply is followed by one pause of 200 ms, and a
  request whose wait timed out is followed by no pause. The waits of the loop are the
  ones after the one or two sends that precede it.
\<close>

theorem do_config_cmd_settling:
  assumes "fp_config c = JObj kvs"
    and "\<And>k rep. k < 10 \<Longrightarrow>
           net (polls c + (if map_of kvs ''fr_setup'' = None then 1 else 2) + k) = Some rep \<Longrightarrow>
           get_param rep ''shared_memory'' \<noteq> Inl (IpcMessageException ''shared_memory'')"
  shows "settle_steps (trace (snd (do_config_cmd net c))) =
           settle_steps (trace c) @
           concat (map (\<lambda>k. round_steps net
                     (polls c + (if map_of kvs ''fr_setup'' = None then 1 else 2) + k)) [0..<10])
       \<and> length (filter (\<lambda>s. s = StatusRequest) (settle_steps (trace (snd (do_config_cmd net c)))))
           = length (filter (\<lambda>s. s = StatusRequest) (settle_steps (trace c))) + 10"
  using do_config_cmd_steps [OF assms]
  by (simp add: count_round_steps del: upt_Suc)

theorem do_config_cmd_settling_witness:
  "settle_steps (trace (snd (do_config_cmd (ready_from 4) init_client))) =
     [StatusRequest, StatusRequest, StatusRequest,
      StatusRequest, Pause 200, StatusRequest, Pause 200, StatusRequest, Pause 200,
      StatusRequest, Pause 200, StatusRequest, Pause 200, StatusRequest, Pause 200,
      StatusRequest, Pause 200]"
proof -
  have tree: "fp_config init_client = JObj []"
    by (simp add: init_client_def)
  have replies: "get_param rep ''shared_memory'' \<noteq> Inl (IpcMessageException ''shared_memory'')"
    if "k < 10"
      and "ready_from 4 (polls init_client + (if map_of [] ''fr_setup'' = None then 1 else 2) + k)
             = Some rep"
    for k rep
    using that by (auto simp add: ready_from_def get_param_def split: if_splits)
  show ?thesis
    using do_config_cmd_settling [of init_client "[]" "ready_from 4", OF tree replies]
    by (simp add: init_client_def upt_10 round_steps_def ready_from_def)
qed

text \<open>
  The claim C1 as stated fails when no wait brings a reply: ten status requests, and no
  pause after any of them.
\<close>

theorem do_config_cmd_pause_counterexample:
  "settle_steps (trace (snd (do_config_cmd no_reply init_client))) =
     [StatusRequest, StatusRequest, StatusRequest, StatusRequest, StatusRequest,
      StatusRequest, StatusRequest, StatusRequest, StatusRequest, StatusRequest]"
proof -
  have tree: "fp_config init_client = JObj []"
    by (simp add: init_client_def)
  have replies: "get_param rep ''shared_memory'' \<noteq> Inl (IpcMessageException ''shared_memory'')"
    if "no_reply n = Some rep" for n rep
    using that by (simp add: no_reply_def)
  show ?thesis
    using do_config_cmd_steps [of init_client "[]" no_reply, OF tree replies]
    by (simp add: init_client_def upt_10 round_steps_def no_reply_def)
qed

subsection \<open>Paths, sections and the writes of the setters\<close>

lemma getitems_lookup: "getitems t p = Inr v \<longleftrightarrow> lookup_path t p = Some v"
proof (induction p arbitrary: t)
  case Nil
  show ?case by auto
next
  case (Cons k ks)
  show ?case
    by (cases t) (auto simp add: Cons.IH split: option.splits)
qed

lemma getitems_raises: "lookup_path t p = None \<Longrightarrow> \<exists>e. getitems t p = Inl e"
  by (cases "getitems t p") (simp_all add: getitems_lookup)

lemma lookup_path_append:
  "lookup_path t (p @ r) = (case lookup_path t p of None \<Rightarrow> None | Some v \<Rightarrow> lookup_path v r)"
proof (induction p arbitrary: t)
  case Nil
  show ?case by simp
next
  case (Cons k ks)
  show ?case
    by (cases t) (simp_all add: Cons.IH split: option.splits)
qed

lemma update_at_absent: "lookup_path t p = None \<Longrightarrow> update_at p new t = t"
proof (induction p arbitrary: t)
  case Nil
  then show ?case by simp
next
  case (Cons k ks)
  show ?case
  proof (cases t)
    case (JObj kvs)
    show ?thesis
    proof (cases "map_of kvs k")
      case None
      then show ?thesis using JObj by simp
    next
      case (Some u)
      then have "lookup_path u ks = None" using Cons.prems JObj by simp
      then have "update_at ks new u = u" by (rule Cons.IH)
      then show ?thesis using JObj Some by (simp add: update_triv)
    qed
  qed simp_all
qed

lemma lookup_update_at_ext:
  "lookup_path t p = Some old \<Longrightarrow> lookup_path (update_at p new t) (p @ r) = lookup_path new r"
proof (induction p arbitrary: t)
  case Nil
  show ?case by simp
next
  case (Cons k ks)
  then show ?case
    by (cases t) (auto simp add: update_conv' split: option.splits)
qed

lemma lookup_update_at_other:
  "\<not> prefix q p \<Longrightarrow> \<not> prefix p q \<Longrightarrow> lookup_path (update_at p new t) q = lookup_path t q"
proof (induction p arbitrary: t q)
  case Nil
  then show ?case by simp
next
  case (Cons k ks)
  then obtain k' qs where q: "q = k' # qs" by (cases q) auto
  show ?case
  proof (cases t)
    case (JObj kvs)
    show ?thesis
    proof (cases "map_of kvs k")
      case None
      then show ?thesis using JObj by simp
    next
      case (Some u)
      show ?thesis
      proof (cases "k' = k")
        case True
        then have "\<not> prefix qs ks" "\<not> prefix ks qs" using Cons.prems q by simp_all
        then have "lookup_path (update_at ks new u) qs = lookup_path u qs" by (rule Cons.IH)
        then show ?thesis using JObj Some q True by (simp add: update_conv')
      next
        case False
        then show ?thesis using JObj Some q by (simp add: update_conv')
      qed
    qed
  qed (simp_all add: q)
qed

lemma lookup_update_at_above:
  "lookup_path t (q @ r) = Some old \<Longrightarrow> r \<noteq> [] \<Longrightarrow>
   \<exists>kvs. lookup_path (update_at (q @ r) new t) q = Some (JObj kvs)"
proof (induction q arbitrary: t)
  case Nil
  then obtain k ks where r: "r = k # ks" by (cases r) auto
  then show ?case using Nil by (cases t) (auto split: option.splits)
next
  case (Cons k ks)
  then show ?case
    by (cases t) (auto simp add: update_conv' split: option.splits)
qed


lemma section_atE:
  assumes "section_at t p"
  obtains kvs where "lookup_path t p = Some (JObj kvs)"
proof -
  obtain v where v: "lookup_path t p = Some v" "is_section v"
    using assms by (auto simp add: section_at_def split: option.splits)
  then show ?thesis using that by (cases v) simp_all
qed

lemma section_atI: "lookup_path t p = Some (JObj kvs) \<Longrightarrow> section_at t p"
  by (simp add: section_at_def)

lemma not_section_at_below:
  "\<not> section_at t p \<Longrightarrow> r \<noteq> [] \<Longrightarrow> lookup_path t (p @ r) = None"
proof -
  assume a: "\<not> section_at t p" and r: "r \<noteq> []"
  obtain k ks where rk: "r = k # ks" using r by (cases r) auto
  show ?thesis
  proof (cases "lookup_path t p")
    case None
    then show ?thesis by (simp add: lookup_path_append)
  next
    case (Some v)
    then have "\<not> is_section v" using a by (simp add: section_at_def)
    then show ?thesis using Some rk by (cases v) (simp_all add: lookup_path_append)
  qed
qed

lemma tree_of_put_tree [simp]:
  "tree_of tr' (put_tree tr t c) = (if tr' = tr then t else tree_of tr' c)"
  by (cases tr; cases tr') simp_all

lemma put_tree_fields [simp]:
  "frames (put_tree tr t c) = frames c"
  "file_path (put_tree tr t c) = file_path c"
  "file_name (put_tree tr t c) = file_name c"
  "fp_plugins (put_tree tr t c) = fp_plugins c"
  "msg_counter (put_tree tr t c) = msg_counter c"
  "trace (put_tree tr t c) = trace c"
  "polls (put_tree tr t c) = polls c"
  by (cases tr; simp)+

lemma tree_of_trace_update [simp]: "tree_of tr (c\<lparr>trace := x\<rparr>) = tree_of tr c"
  by (cases tr) simp_all

lemma deref_eq:
  "deref (tr, p) c =
     (case getitems (tree_of tr c) p of Inl e \<Rightarrow> (Inl e, c) | Inr v \<Rightarrow> (Inr v, c))"
  by (simp add: deref_def act_defs split: sum.splits)

lemma deref_found: "lookup_path (tree_of tr c) p = Some v \<Longrightarrow> deref (tr, p) c = (Inr v, c)"
  using getitems_lookup [of "tree_of tr c" p v] by (simp add: deref_eq)

lemma deref_missing:
  "lookup_path (tree_of tr c) p = None \<Longrightarrow> \<exists>e. deref (tr, p) c = (Inl e, c)"
  using getitems_raises [of "tree_of tr c" p] by (auto simp add: deref_eq)

lemma ensure_section:
  assumes "lookup_path (tree_of tr c) p = Some (JObj kvs)"
  shows "ensure_config_section (tr, p) k c =
     (if map_of kvs k \<noteq> None then (Inr (), c)
      else (Inr (),
            (put_tree tr (update_at p (JObj (AList.update k (JObj []) kvs)) (tree_of tr c)) c)
              \<lparr>trace := trace c @ [Log Debug (''Created '' @ k @ '' section in config params'')]\<rparr>))"
  by (simp add: ensure_config_section_def bindA_def deref_found [OF assms] mutate_def act_defs)

lemma ensure_no_section:
  assumes "\<not> section_at (tree_of tr c) p"
  shows "snd (ensure_config_section (tr, p) k c) = c"
proof (cases "lookup_path (tree_of tr c) p")
  case None
  then obtain e where "deref (tr, p) c = (Inl e, c)" using deref_missing by blast
  then show ?thesis by (simp add: ensure_config_section_def bindA_Inl)
next
  case (Some v)
  then have "\<not> is_section v" using assms by (simp add: section_at_def)
  then show ?thesis
    by (cases v)
       (simp_all add: ensure_config_section_def bindA_def deref_found [OF Some] act_defs)
qed

lemma assign_section:
  assumes "lookup_path (tree_of tr c) p = Some (JObj kvs)"
  shows "assign (tr, p) k v c =
     (Inr (), put_tree tr (update_at p (JObj (AList.update k v kvs)) (tree_of tr c)) c)"
  by (simp add: assign_def bindA_def deref_found [OF assms] mutate_def act_defs)

lemma assign_no_section:
  assumes "\<not> section_at (tree_of tr c) p"
  shows "\<exists>e. assign (tr, p) k v c = (Inl e, c)"
proof (cases "lookup_path (tree_of tr c) p")
  case None
  then obtain e where "deref (tr, p) c = (Inl e, c)" using deref_missing by blast
  then show ?thesis by (simp add: assign_def bindA_Inl)
next
  case (Some u)
  then have "\<not> is_section u" using assms by (simp add: section_at_def)
  then show ?thesis
    by (cases u) (simp_all add: assign_def bindA_def deref_found [OF Some] act_defs)
qed

lemma replace_key_frame:
  assumes obj: "lookup_path t p = Some (JObj kvs)"
    and above: "\<not> prefix q (p @ [k])"
    and below: "\<not> prefix (p @ [k]) q \<or> (map_of kvs k = None \<and> v = JObj [])"
  shows "lookup_path (update_at p (JObj (AList.update k v kvs)) t) q = lookup_path t q"
proof (cases "prefix p q")
  case True
  then obtain r where q: "q = p @ r" by (auto simp add: prefix_def)
  have "r \<noteq> []" "r \<noteq> [k]" using above q by auto
  then obtain k' r' where r: "r = k' # r'" and kr: "k' \<noteq> k \<or> r' \<noteq> []"
    by (cases r) auto
  have "lookup_path (JObj (AList.update k v kvs)) r = lookup_path (JObj kvs) r"
  proof (cases "k' = k")
    case False
    then show ?thesis using r by (simp add: update_conv')
  next
    case True
    then have "prefix (p @ [k]) q" using q r by simp
    then have "map_of kvs k = None" "v = JObj []" using below by simp_all
    moreover obtain k2 r2 where "r' = k2 # r2" using kr True by (cases r') auto
    ultimately show ?thesis using r True by (simp add: update_conv')
  qed
  then show ?thesis
    unfolding q lookup_update_at_ext [OF obj] by (simp add: lookup_path_append obj)
next
  case False
  moreover have "\<not> prefix q p" using above by auto
  ultimately show ?thesis by (rule lookup_update_at_other [rotated])
qed


lemma thenA_returnA [simp]: "thenA m (returnA ()) = m"
proof
  fix c
  show "thenA m (returnA ()) c = m c"
  proof (cases "m c")
    case (Pair r c')
    then show ?thesis by (cases r) (simp_all add: thenA_def bindA_def returnA_def)
  qed
qed

lemma set_num_frames_write:
  "set_num_frames n =
     thenA (modify (\<lambda>c. c\<lparr>frames := n\<rparr>)) (write_leaf FpConfig [] [''hdf'', ''frames''] (JInt n))"
  by (simp add: set_num_frames_def)

lemma set_file_path_write:
  "set_file_path p =
     thenA (modify (\<lambda>c. c\<lparr>file_path := p\<rparr>))
           (write_leaf FpConfig [] [''hdf'', ''file'', ''path''] (JStr p))"
  by (simp add: set_file_path_def)

lemma set_file_name_write:
  "set_file_name f =
     thenA (modify (\<lambda>c. c\<lparr>file_name := f\<rparr>))
           (write_leaf FpConfig [] [''hdf'', ''file'', ''name''] (JStr f))"
  by (simp add: set_file_name_def)

lemma thenA_assoc: "thenA (thenA a b) d = thenA a (thenA b d)"
proof
  fix c
  show "thenA (thenA a b) d c = thenA a (thenA b d) c"
  proof (cases "a c")
    case (Pair r c')
    then show ?thesis by (cases r) (simp_all add: thenA_def bindA_def)
  qed
qed

lemma set_bitdepth_write:
  "set_bitdepth b =
     bindA (liftE (format_d b)) (\<lambda>formatted.
     thenA (write_leaf FrConfig [] [''decoder_config'', ''bitdepth''] (JStr (formatted @ ''-bit'')))
    (thenA (write_leaf FpConfig [] [''excalibur'', ''bitdepth''] (JStr (formatted @ ''-bit'')))
           (bindA (liftE (rdtype_lookup b)) (\<lambda>rdtype.
              write_leaf FpConfig [] [''hdf'', ''dataset'', ''data'', ''datatype''] (JInt rdtype)))))"
  by (simp add: set_bitdepth_def Let_def thenA_assoc)

lemma set_bitdepth_formatted:
  assumes "format_d b = Inr s"
  shows "set_bitdepth b =
     thenA (write_leaf FrConfig [] [''decoder_config'', ''bitdepth''] (JStr (s @ ''-bit'')))
    (thenA (write_leaf FpConfig [] [''excalibur'', ''bitdepth''] (JStr (s @ ''-bit'')))
           (bindA (liftE (rdtype_lookup b)) (\<lambda>rdtype.
              write_leaf FpConfig [] [''hdf'', ''dataset'', ''data'', ''datatype''] (JInt rdtype))))"
  unfolding set_bitdepth_write by (rule ext) (simp add: assms bindA_def liftE_def returnA_def)

lemma set_bitdepth_unformatted:
  assumes "format_d b = Inl e"
  shows "set_bitdepth b c = (Inl e, c)"
  unfolding set_bitdepth_write by (simp add: assms bindA_def liftE_def raiseA_def)

lemma ensure_keeps:
  assumes "\<And>t c. g (put_tree tr t c) = g c" and "\<And>x c. g (c\<lparr>trace := x\<rparr>) = g c"
  shows "g (snd (ensure_config_section (tr, p) k c)) = g c"
proof (cases "section_at (tree_of tr c) p")
  case True
  then obtain kvs where "lookup_path (tree_of tr c) p = Some (JObj kvs)" by (rule section_atE)
  then show ?thesis by (simp add: ensure_section assms)
next
  case False
  then show ?thesis by (simp add: ensure_no_section)
qed

lemma assign_keeps:
  assumes "\<And>t c. g (put_tree tr t c) = g c"
  shows "g (snd (assign (tr, p) k v c)) = g c"
proof (cases "section_at (tree_of tr c) p")
  case True
  then obtain kvs where "lookup_path (tree_of tr c) p = Some (JObj kvs)" by (rule section_atE)
  then show ?thesis by (simp add: assign_section assms)
next
  case False
  then obtain e where "assign (tr, p) k v c = (Inl e, c)" using assign_no_section by blast
  then show ?thesis by simp
qed

lemma write_leaf_keeps:
  assumes "\<And>t c. g (put_tree tr t c) = g c" and "\<And>x c. g (c\<lparr>trace := x\<rparr>) = g c"
  shows "g (snd (write_leaf tr p ks v c)) = g c"
  using assms
proof (induction tr p ks v arbitrary: c rule: write_leaf.induct)
  case (1 tr p v)
  show ?case by (simp add: returnA_def)
next
  case (2 tr p k v)
  show ?case using assign_keeps [of g tr, OF "2.prems"(1)] by simp
next
  case (3 tr p k k' ks v)
  have rest: "g (snd (write_leaf tr (p @ [k]) (k' # ks) v c')) = g c'" for c'
    using "3.IH" "3.prems" by blast
  show ?case
    unfolding write_leaf.simps
    by (rule thenA_keeps) (simp_all add: ensure_keeps [of g tr, OF "3.prems"] rest)
qed

lemma ensure_frame:
  assumes "\<not> prefix q (p @ [k])"
  shows "lookup_path (tree_of tr (snd (ensure_config_section (tr, p) k c))) q
           = lookup_path (tree_of tr c) q"
proof (cases "section_at (tree_of tr c) p")
  case True
  then obtain kvs where obj: "lookup_path (tree_of tr c) p = Some (JObj kvs)" by (rule section_atE)
  show ?thesis
    using replace_key_frame [OF obj assms, of "JObj []"]
    by (simp add: ensure_section [OF obj])
next
  case False
  then show ?thesis by (simp add: ensure_no_section)
qed

lemma assign_frame:
  assumes "\<not> prefix q (p @ [k])" and "\<not> prefix (p @ [k]) q"
  shows "lookup_path (tree_of tr (snd (assign (tr, p) k v c))) q = lookup_path (tree_of tr c) q"
proof (cases "section_at (tree_of tr c) p")
  case True
  then obtain kvs where obj: "lookup_path (tree_of tr c) p = Some (JObj kvs)" by (rule section_atE)
  show ?thesis
    using replace_key_frame [OF obj assms(1), of v] assms(2)
    by (simp add: assign_section [OF obj])
next
  case False
  then obtain e where "assign (tr, p) k v c = (Inl e, c)" using assign_no_section by blast
  then show ?thesis by simp
qed

lemma write_leaf_frame:
  assumes "\<not> prefix q (p @ ks)" and "\<not> prefix (p @ ks) q"
  shows "lookup_path (tree_of tr (snd (write_leaf tr p ks v c))) q = lookup_path (tree_of tr c) q"
  using assms
proof (induction tr p ks v arbitrary: c rule: write_leaf.induct)
  case (1 tr p v)
  show ?case by (simp add: returnA_def)
next
  case (2 tr p k v)
  then show ?case by (simp add: assign_frame)
next
  case (3 tr p k k' ks v)
  have above: "\<not> prefix q (p @ [k])"
  proof
    assume "prefix q (p @ [k])"
    moreover have "prefix (p @ [k]) (p @ k # k' # ks)" by simp
    ultimately have "prefix q (p @ k # k' # ks)" by (rule prefix_order.trans)
    then show False using 3 by simp
  qed
  have rest: "lookup_path (tree_of tr (snd (write_leaf tr (p @ [k]) (k' # ks) v c'))) q
                = lookup_path (tree_of tr c') q" for c'
    using 3 by simp
  show ?case
    unfolding write_leaf.simps
    by (rule thenA_keeps [where g = "\<lambda>c. lookup_path (tree_of tr c) q"])
       (simp_all add: ensure_frame [OF above] rest)
qed


lemma ensure_raises:
  assumes "ensure_config_section (tr, p) k c = (Inl e, c')"
  shows "c' = c \<and> \<not> section_at (tree_of tr c) p"
proof (cases "section_at (tree_of tr c) p")
  case True
  then obtain kvs where "lookup_path (tree_of tr c) p = Some (JObj kvs)" by (rule section_atE)
  then show ?thesis using assms by (simp add: ensure_section split: if_splits)
next
  case False
  then show ?thesis using assms ensure_no_section [of tr c p k] by simp
qed

lemma lookup_key_after_update:
  assumes "lookup_path t p = Some (JObj kvs)"
  shows "lookup_path (update_at p (JObj (AList.update k v kvs)) t) (p @ k # r) = lookup_path v r"
  unfolding lookup_update_at_ext [OF assms] by (simp add: update_conv')

lemma lookup_above_after_update:
  assumes "lookup_path t p = Some old" and "prefix q p"
  shows "section_at (update_at p (JObj kvs) t) q"
proof (cases "q = p")
  case True
  then show ?thesis
    using lookup_update_at_ext [OF assms(1), of "JObj kvs" "[]"] by (simp add: section_at_def)
next
  case False
  then obtain r where "p = q @ r" "r \<noteq> []" using assms(2) by (auto simp add: prefix_def)
  then show ?thesis
    using lookup_update_at_above [of t q r old "JObj kvs"] assms(1) by (auto simp add: section_at_def)
qed

lemma write_leaf_leaf:
  assumes "ks \<noteq> []"
  shows "leaf_agrees (tree_of tr (snd (write_leaf tr p ks v c))) (p @ ks) v"
  using assms
proof (induction tr p ks v arbitrary: c rule: write_leaf.induct)
  case (1 tr p v)
  then show ?case by simp
next
  case (2 tr p k v)
  show ?case
  proof (cases "section_at (tree_of tr c) p")
    case True
    then obtain kvs where obj: "lookup_path (tree_of tr c) p = Some (JObj kvs)"
      by (rule section_atE)
    show ?thesis
      using lookup_key_after_update [OF obj, of k v "[]"]
      by (simp add: assign_section [OF obj] leaf_agrees_def)
  next
    case False
    then obtain e where "assign (tr, p) k v c = (Inl e, c)" using assign_no_section by blast
    then show ?thesis
      using not_section_at_below [OF False, of "[k]"] by (simp add: leaf_agrees_def)
  qed
next
  case (3 tr p k k' ks v)
  obtain r c1 where en: "ensure_config_section (tr, p) k c = (r, c1)"
    by (cases "ensure_config_section (tr, p) k c")
  show ?case
  proof (cases r)
    case (Inl e)
    then have "c1 = c" "\<not> section_at (tree_of tr c) p"
      using ensure_raises [of tr p k c e c1] en by simp_all
    then show ?thesis
      using en Inl not_section_at_below [of "tree_of tr c" p "k # k' # ks"]
      by (simp add: thenA_def bindA_def leaf_agrees_def)
  next
    case (Inr u)
    then have "snd (write_leaf tr p (k # k' # ks) v c) = snd (write_leaf tr (p @ [k]) (k' # ks) v c1)"
      using en by (simp add: thenA_def bindA_def)
    then show ?thesis using "3.IH" [of c1] by simp
  qed
qed

lemma write_leaf_below:
  assumes "ks \<noteq> []" and "section_at (tree_of tr c) p"
    and "\<And>r. strict_prefix r ks \<Longrightarrow> absent_or_section (tree_of tr c) (p @ r)"
  shows "\<exists>c'. write_leaf tr p ks v c = (Inr (), c')
           \<and> lookup_path (tree_of tr c') (p @ ks) = Some v
           \<and> (\<forall>q. strict_prefix q (p @ ks) \<longrightarrow> section_at (tree_of tr c') q)"
  using assms
proof (induction tr p ks v arbitrary: c rule: write_leaf.induct)
  case (1 tr p v)
  then show ?case by simp
next
  case (2 tr p k v)
  obtain kvs where obj: "lookup_path (tree_of tr c) p = Some (JObj kvs)"
    using "2.prems"(2) by (rule section_atE)
  have "section_at (update_at p (JObj (AList.update k v kvs)) (tree_of tr c)) q"
    if "strict_prefix q (p @ [k])" for q
  proof -
    have "prefix q p" using that by (auto simp add: strict_prefix_def)
    then show ?thesis by (rule lookup_above_after_update [OF obj])
  qed
  then show ?case
    using lookup_key_after_update [OF obj, of k v "[]"]
    by (simp add: assign_section [OF obj])
next
  case (3 tr p k k' ks v)
  obtain kvs where obj: "lookup_path (tree_of tr c) p = Some (JObj kvs)"
    using "3.prems"(2) by (rule section_atE)
  have below: "absent_or_section (tree_of tr c) (p @ k # r)" if "strict_prefix r (k' # ks)" for r
    using "3.prems"(3) [of "k # r"] that by (simp add: strict_prefix_def)
  have key: "lookup_path (tree_of tr c) (p @ k # r)
               = (case map_of kvs k of None \<Rightarrow> None | Some u \<Rightarrow> lookup_path u r)" for r
    by (simp add: lookup_path_append obj)
  obtain c1 where en: "ensure_config_section (tr, p) k c = (Inr (), c1)"
    and sec: "section_at (tree_of tr c1) (p @ [k])"
    and rest: "\<And>r. strict_prefix r (k' # ks) \<Longrightarrow> absent_or_section (tree_of tr c1) ((p @ [k]) @ r)"
  proof (cases "map_of kvs k")
    case None
    let ?c1 = "(put_tree tr (update_at p (JObj (AList.update k (JObj []) kvs)) (tree_of tr c)) c)
              \<lparr>trace := trace c @ [Log Debug (''Created '' @ k @ '' section in config params'')]\<rparr>"
    have look: "lookup_path (tree_of tr ?c1) (p @ k # r) = lookup_path (JObj []) r" for r
      using lookup_key_after_update [OF obj, of k "JObj []" r] by simp
    have "ensure_config_section (tr, p) k c = (Inr (), ?c1)"
      using None by (simp add: ensure_section [OF obj])
    moreover have "section_at (tree_of tr ?c1) (p @ [k])"
      using look [of "[]"] by (simp add: section_at_def)
    moreover have "absent_or_section (tree_of tr ?c1) ((p @ [k]) @ r)" for r
      using look [of r] by (cases r) (simp_all add: absent_or_section_def)
    ultimately show ?thesis using that by blast
  next
    case (Some u)
    have "absent_or_section (tree_of tr c) (p @ [k])"
      using "3.prems"(3) [of "[k]"] by (simp add: strict_prefix_def)
    then have "section_at (tree_of tr c) (p @ [k])"
      using key [of "[]"] Some by (simp add: absent_or_section_def section_at_def)
    moreover have "ensure_config_section (tr, p) k c = (Inr (), c)"
      using Some by (simp add: ensure_section [OF obj])
    ultimately show ?thesis using that below by simp
  qed
  have "\<exists>c'. write_leaf tr (p @ [k]) (k' # ks) v c1 = (Inr (), c')
           \<and> lookup_path (tree_of tr c') ((p @ [k]) @ k' # ks) = Some v
           \<and> (\<forall>q. strict_prefix q ((p @ [k]) @ k' # ks) \<longrightarrow> section_at (tree_of tr c') q)"
    using sec rest by (intro "3.IH") simp_all
  then show ?case
    using en by (simp add: thenA_def bindA_def)
qed

lemma set_butlast_prefixes: "set (butlast (prefixes w)) = {q. strict_prefix q w}"
proof -
  have split: "prefixes w = butlast (prefixes w) @ [w]"
    using append_butlast_last_id [of "prefixes w"] by simp
  have "distinct (butlast (prefixes w) @ [w])"
    using distinct_prefixes [of w] split by simp
  then have "w \<notin> set (butlast (prefixes w))" by simp
  moreover have "set (prefixes w) = insert w (set (butlast (prefixes w)))"
    using split by (metis list.simps(15) rotate1.simps(2) set_rotate1)
  ultimately show ?thesis
    by (auto simp add: strict_prefix_def set_eq_iff)
qed

lemma writable_iff: "writable t w \<longleftrightarrow> (\<forall>q. strict_prefix q w \<longrightarrow> absent_or_section t q)"
  by (simp add: writable_def list_all_iff set_butlast_prefixes)

lemma section_at_absent_or: "section_at t q \<Longrightarrow> absent_or_section t q"
  by (simp add: absent_or_section_def section_at_def split: option.splits)

lemma write_leaf_ok:
  assumes "w \<noteq> []" and "writable (tree_of tr c) w"
  shows "\<exists>c'. write_leaf tr [] w v c = (Inr (), c')
           \<and> lookup_path (tree_of tr c') w = Some v
           \<and> (\<forall>q. strict_prefix q w \<longrightarrow> section_at (tree_of tr c') q)
           \<and> (\<forall>tr2 w2. writable (tree_of tr2 c) w2 \<longrightarrow> (tr2 = tr \<longrightarrow> \<not> strict_prefix w w2)
                 \<longrightarrow> writable (tree_of tr2 c') w2)"
proof -
  have "strict_prefix [] w" using assms(1) by (cases w) simp_all
  then have "absent_or_section (tree_of tr c) []"
    using assms(2) unfolding writable_iff by blast
  then have top: "section_at (tree_of tr c) []"
    by (simp add: absent_or_section_def section_at_def)
  have "\<exists>c'. write_leaf tr [] w v c = (Inr (), c')
           \<and> lookup_path (tree_of tr c') ([] @ w) = Some v
           \<and> (\<forall>q. strict_prefix q ([] @ w) \<longrightarrow> section_at (tree_of tr c') q)"
    using assms top by (intro write_leaf_below) (simp_all add: writable_iff)
  then obtain c' where run: "write_leaf tr [] w v c = (Inr (), c')"
    and leaf: "lookup_path (tree_of tr c') w = Some v"
    and secs: "\<And>q. strict_prefix q w \<Longrightarrow> section_at (tree_of tr c') q"
    by auto
  have c': "c' = snd (write_leaf tr [] w v c)" using run by simp
  have "writable (tree_of tr2 c') w2"
    if w2: "writable (tree_of tr2 c) w2" and apart: "tr2 = tr \<longrightarrow> \<not> strict_prefix w w2" for tr2 w2
  proof (cases "tr2 = tr")
    case False
    have "tree_of tr2 c' = tree_of tr2 c"
      unfolding c' using False by (intro write_leaf_keeps) simp_all
    then show ?thesis using w2 by simp
  next
    case True
    have "absent_or_section (tree_of tr c') q" if q: "strict_prefix q w2" for q
    proof (cases "strict_prefix q w")
      case True
      then have "section_at (tree_of tr c') q" by (rule secs)
      then show ?thesis by (rule section_at_absent_or)
    next
      case False
      have "\<not> prefix w q"
      proof
        assume "prefix w q"
        then have "strict_prefix w w2" using q by (rule prefix_order.le_less_trans)
        then show False using apart \<open>tr2 = tr\<close> by simp
      qed
      moreover have "\<not> prefix q w"
        using False \<open>\<not> prefix w q\<close> by (auto simp add: strict_prefix_def)
      ultimately have "lookup_path (tree_of tr c') q = lookup_path (tree_of tr c) q"
        unfolding c' using write_leaf_frame [of q "[]" w tr v c] by simp
      then show ?thesis
        using w2 q \<open>tr2 = tr\<close> by (simp add: writable_iff absent_or_section_def)
    qed
    then show ?thesis using True by (simp add: writable_iff)
  qed
  then show ?thesis using run leaf secs by blast
qed

subsection \<open>Bit depth\<close>

declare write_leaf.simps [simp del]

lemma rdtype_lookup_cases:
  "rdtype_lookup b =
     (if b = 1 then Inr 0 else if b = 6 then Inr 0 else if b = 12 then Inr 1
      else if b = 24 then Inr 2 else Inl (KeyError (JInt b)))"
  by (simp add: rdtype_lookup_def rdtype_map_def)

text \<open>The digits that \<open>digits\<close> produces are a decimal numeral of the number.\<close>

lemma digit_char_table:
  "list_all (\<lambda>d. is_digit (digit_char d) \<and> digit_value (digit_char d) = d
                \<and> (digit_char d = CHR ''0'' \<longrightarrow> d = 0)) [0..<10]"
  by code_simp

lemma digit_char_props:
  assumes "d < 10"
  shows "is_digit (digit_char d)" and "digit_value (digit_char d) = d"
    and "digit_char d = CHR ''0'' \<Longrightarrow> d = 0"
proof -
  have "d \<in> set [0..<10]" using assms by simp
  then have "is_digit (digit_char d) \<and> digit_value (digit_char d) = d
                \<and> (digit_char d = CHR ''0'' \<longrightarrow> d = 0)"
    using digit_char_table unfolding list_all_iff by blast
  then show "is_digit (digit_char d)" and "digit_value (digit_char d) = d"
    and "digit_char d = CHR ''0'' \<Longrightarrow> d = 0" by simp_all
qed

lemma digit_char_0: "digit_char 0 = CHR ''0''"
  by code_simp

lemma digits_small: "n < 10 \<Longrightarrow> digits n = [digit_char n]"
  by (subst digits.simps) simp

lemma digits_large: "\<not> n < 10 \<Longrightarrow> digits n = digits (n div 10) @ [digit_char (n mod 10)]"
  by (subst digits.simps) simp

lemma digits_nonempty: "digits n \<noteq> []"
  by (cases "n < 10") (simp_all add: digits_small digits_large)

lemma digits_chars: "list_all is_digit (digits n)"
proof (induction n rule: digits.induct)
  case (1 n)
  show ?case
  proof (cases "n < 10")
    case True
    then show ?thesis by (simp add: digits_small digit_char_props(1))
  next
    case False
    then show ?thesis using 1 by (simp add: digits_large digit_char_props(1))
  qed
qed

lemma decimal_value_snoc:
  "decimal_value (ds @ [ch]) = 10 * decimal_value ds + digit_value ch"
  by (simp add: decimal_value_def)

lemma decimal_value_digits: "decimal_value (digits n) = n"
proof (induction n rule: digits.induct)
  case (1 n)
  show ?case
  proof (cases "n < 10")
    case True
    then show ?thesis by (simp add: digits_small decimal_value_def digit_char_props(2))
  next
    case False
    then have "decimal_value (digits n) = 10 * (n div 10) + n mod 10"
      using 1 by (simp add: digits_large decimal_value_snoc digit_char_props(2))
    then show ?thesis by simp
  qed
qed

lemma digits_zero:
  assumes "digits m = ''0''"
  shows "m = 0"
proof -
  have "decimal_value (digits m) = 0"
    unfolding assms by (simp add: decimal_value_def digit_value_def)
  then show ?thesis by (simp add: decimal_value_digits)
qed

lemma digits_leading: "hd (digits n) = CHR ''0'' \<Longrightarrow> digits n = ''0''"
proof (induction n rule: digits.induct)
  case (1 n)
  show ?case
  proof (cases "n < 10")
    case True
    then have "digit_char n = CHR ''0''" using "1.prems" by (simp add: digits_small)
    then have "n = 0" using True by (rule digit_char_props(3) [rotated])
    then show ?thesis by (simp add: digits_small digit_char_0)
  next
    case False
    then have "hd (digits (n div 10)) = CHR ''0''"
      using "1.prems" by (simp add: digits_large digits_nonempty)
    then have "digits (n div 10) = ''0''" using "1.IH" False by simp
    then have "n div 10 = 0" by (rule digits_zero)
    then show ?thesis using False by simp
  qed
qed

lemma digits_decimal: "is_decimal (digits n) \<and> decimal_value (digits n) = n"
  using digits_leading [of n]
  by (simp add: is_decimal_def digits_nonempty digits_chars decimal_value_digits)

lemma digits_length_upper: "n < 10 ^ length (digits n)"
proof (induction n rule: digits.induct)
  case (1 n)
  show ?case
  proof (cases "n < 10")
    case True
    then show ?thesis by (simp add: digits_small)
  next
    case False
    then have "n div 10 < 10 ^ length (digits (n div 10))" using 1 by simp
    then have "n < 10 * 10 ^ length (digits (n div 10))" by linarith
    then show ?thesis using False by (simp add: digits_large)
  qed
qed

lemma digits_length_lower: "n \<noteq> 0 \<Longrightarrow> 10 ^ length (digits n) \<le> 10 * n"
proof (induction n rule: digits.induct)
  case (1 n)
  show ?case
  proof (cases "n < 10")
    case True
    then show ?thesis using "1.prems" by (simp add: digits_small)
  next
    case False
    then have "n div 10 \<noteq> 0" by simp
    then have "10 ^ length (digits (n div 10)) \<le> 10 * (n div 10)"
      using "1.IH" False by simp
    also have "\<dots> \<le> n" by simp
    finally show ?thesis using False by (simp add: digits_large)
  qed
qed

lemma digits_length_le:
  assumes "n < 10 ^ k" and "0 < k"
  shows "length (digits n) \<le> k"
proof (cases "n = 0")
  case True
  then show ?thesis using assms(2) by (simp add: digits_small)
next
  case False
  have "(10::nat) ^ length (digits n) \<le> 10 * n" using False by (rule digits_length_lower)
  also have "\<dots> < 10 * 10 ^ k" using assms(1) by simp
  finally have "(10::nat) ^ length (digits n) < 10 ^ Suc k" by simp
  then have "length (digits n) < Suc k" by (rule power_less_imp_less_exp [rotated]) simp
  then show ?thesis by simp
qed

lemma digits_length_gt:
  assumes "10 ^ k \<le> n"
  shows "k < length (digits n)"
proof -
  have "(10::nat) ^ k < 10 ^ length (digits n)"
    using assms digits_length_upper [of n] by (rule le_less_trans)
  then show ?thesis by (rule power_less_imp_less_exp [rotated]) simp
qed

lemma int_max_str_digits_pos: "0 < int_max_str_digits"
  by (simp add: int_max_str_digits_def)

lemma format_d_short:
  assumes "\<bar>b\<bar> < 10 ^ int_max_str_digits"
  shows "format_d b = Inr (show_int b)"
proof -
  have "int (nat \<bar>b\<bar>) < int (10 ^ int_max_str_digits)" using assms by simp
  then have "nat \<bar>b\<bar> < 10 ^ int_max_str_digits" by (simp only: of_nat_less_iff)
  then have "length (digits (nat \<bar>b\<bar>)) \<le> int_max_str_digits"
    using int_max_str_digits_pos by (rule digits_length_le)
  then show ?thesis by (simp add: format_d_def)
qed

lemma format_d_long:
  assumes "10 ^ int_max_str_digits \<le> \<bar>b\<bar>"
  shows "format_d b = Inl ValueError"
proof -
  have "int (10 ^ int_max_str_digits) \<le> int (nat \<bar>b\<bar>)" using assms by simp
  then have "10 ^ int_max_str_digits \<le> nat \<bar>b\<bar>" by (simp only: of_nat_le_iff)
  then have "int_max_str_digits < length (digits (nat \<bar>b\<bar>))" by (rule digits_length_gt)
  then show ?thesis by (simp add: format_d_def)
qed

lemma show_int_sign:
  "show_int b = (if b < 0 then ''-'' else []) @ digits (nat \<bar>b\<bar>)"
  by (simp add: show_int_def)

lemma format_d_table:
  "format_d 1 = Inr ''1''" "format_d 6 = Inr ''6''" "format_d 12 = Inr ''12''"
  "format_d 24 = Inr ''24''"
  by code_simp+

lemma format_d_8: "format_d 8 = Inr ''8''"
  by code_simp

lemma set_bitdepth_strings:
  assumes fmt: "format_d b = Inr s"
    and w1: "writable (fr_config c) [''decoder_config'', ''bitdepth'']"
    and w2: "writable (fp_config c) [''excalibur'', ''bitdepth'']"
  shows "\<exists>c2. set_bitdepth b c =
            bindA (liftE (rdtype_lookup b)) (\<lambda>rdtype.
              write_leaf FpConfig [] [''hdf'', ''dataset'', ''data'', ''datatype''] (JInt rdtype)) c2
          \<and> lookup_path (fr_config c2) [''decoder_config'', ''bitdepth'']
              = Some (JStr (s @ ''-bit''))
          \<and> lookup_path (fp_config c2) [''excalibur'', ''bitdepth'']
              = Some (JStr (s @ ''-bit''))
          \<and> (writable (fp_config c) [''hdf'', ''dataset'', ''data'', ''datatype'']
               \<longrightarrow> writable (fp_config c2) [''hdf'', ''dataset'', ''data'', ''datatype''])"
proof -
  let ?s = "JStr (s @ ''-bit'')"
  obtain c1 where r1: "write_leaf FrConfig [] [''decoder_config'', ''bitdepth''] ?s c = (Inr (), c1)"
    and l1: "lookup_path (tree_of FrConfig c1) [''decoder_config'', ''bitdepth''] = Some ?s"
    and k1: "\<And>tr2 w2. writable (tree_of tr2 c) w2 \<Longrightarrow>
                (tr2 = FrConfig \<longrightarrow> \<not> strict_prefix [''decoder_config'', ''bitdepth''] w2) \<Longrightarrow>
                writable (tree_of tr2 c1) w2"
    using write_leaf_ok [of "[''decoder_config'', ''bitdepth'']" FrConfig c ?s] w1 by auto
  have w2': "writable (tree_of FpConfig c1) [''excalibur'', ''bitdepth'']"
    using k1 [of FpConfig] w2 by simp
  obtain c2 where r2: "write_leaf FpConfig [] [''excalibur'', ''bitdepth''] ?s c1 = (Inr (), c2)"
    and l2: "lookup_path (tree_of FpConfig c2) [''excalibur'', ''bitdepth''] = Some ?s"
    and k2: "\<And>tr2 w2. writable (tree_of tr2 c1) w2 \<Longrightarrow>
                (tr2 = FpConfig \<longrightarrow> \<not> strict_prefix [''excalibur'', ''bitdepth''] w2) \<Longrightarrow>
                writable (tree_of tr2 c2) w2"
    using write_leaf_ok [of "[''excalibur'', ''bitdepth'']" FpConfig c1 ?s] w2' by auto
  have c2: "c2 = snd (write_leaf FpConfig [] [''excalibur'', ''bitdepth''] ?s c1)"
    using r2 by simp
  have "fr_config c2 = fr_config c1"
    unfolding c2 by (rule write_leaf_keeps) simp_all
  then have fr: "lookup_path (fr_config c2) [''decoder_config'', ''bitdepth''] = Some ?s"
    using l1 by simp
  have w3: "writable (fp_config c2) [''hdf'', ''dataset'', ''data'', ''datatype'']"
    if "writable (fp_config c) [''hdf'', ''dataset'', ''data'', ''datatype'']"
    using k2 [of FpConfig "[''hdf'', ''dataset'', ''data'', ''datatype'']"]
          k1 [of FpConfig "[''hdf'', ''dataset'', ''data'', ''datatype'']"] that
    by (simp add: strict_prefix_def)
  have "set_bitdepth b c =
            bindA (liftE (rdtype_lookup b)) (\<lambda>rdtype.
              write_leaf FpConfig [] [''hdf'', ''dataset'', ''data'', ''datatype''] (JInt rdtype)) c2"
    unfolding set_bitdepth_formatted [OF fmt] by (simp add: thenA_def bindA_def r1 r2)
  then show ?thesis using fr l2 w3 by auto
qed

lemma set_bitdepth_supported:
  assumes b: "rdtype_lookup b = Inr code"
    and fmt: "format_d b = Inr s"
    and w1: "writable (fr_config c) [''decoder_config'', ''bitdepth'']"
    and w2: "writable (fp_config c) [''excalibur'', ''bitdepth'']"
    and w3: "writable (fp_config c) [''hdf'', ''dataset'', ''data'', ''datatype'']"
  shows "fst (set_bitdepth b c) = Inr ()
       \<and> lookup_path (fp_config (snd (set_bitdepth b c))) [''hdf'', ''dataset'', ''data'', ''datatype'']
           = Some (JInt code)
       \<and> lookup_path (fr_config (snd (set_bitdepth b c))) [''decoder_config'', ''bitdepth'']
           = Some (JStr (s @ ''-bit''))
       \<and> lookup_path (fp_config (snd (set_bitdepth b c))) [''excalibur'', ''bitdepth'']
           = Some (JStr (s @ ''-bit''))"
proof -
  let ?s = "JStr (s @ ''-bit'')"
  let ?w = "[''hdf'', ''dataset'', ''data'', ''datatype'']"
  obtain c2 where run: "set_bitdepth b c =
            bindA (liftE (rdtype_lookup b)) (\<lambda>rdtype. write_leaf FpConfig [] ?w (JInt rdtype)) c2"
    and fr: "lookup_path (fr_config c2) [''decoder_config'', ''bitdepth''] = Some ?s"
    and ex: "lookup_path (fp_config c2) [''excalibur'', ''bitdepth''] = Some ?s"
    and w3': "writable (fp_config c2) ?w"
    using set_bitdepth_strings [OF fmt w1 w2] w3 by auto
  have run': "set_bitdepth b c = write_leaf FpConfig [] ?w (JInt code) c2"
    unfolding run by (simp add: b act_defs)
  obtain c3 where r3: "write_leaf FpConfig [] ?w (JInt code) c2 = (Inr (), c3)"
    and l3: "lookup_path (tree_of FpConfig c3) ?w = Some (JInt code)"
    using write_leaf_ok [of ?w FpConfig c2 "JInt code"] w3' by auto
  have c3: "c3 = snd (write_leaf FpConfig [] ?w (JInt code) c2)"
    using r3 by simp
  have "fr_config c3 = fr_config c2"
    unfolding c3 by (rule write_leaf_keeps) simp_all
  moreover have "lookup_path (tree_of FpConfig c3) [''excalibur'', ''bitdepth'']
                   = lookup_path (tree_of FpConfig c2) [''excalibur'', ''bitdepth'']"
    unfolding c3 by (rule write_leaf_frame) simp_all
  ultimately show ?thesis
    using fr ex l3 by (simp add: run' r3)
qed

lemma set_bitdepth_unsupported:
  assumes b: "rdtype_lookup b = Inl e"
    and fmt: "format_d b = Inr s"
    and w1: "writable (fr_config c) [''decoder_config'', ''bitdepth'']"
    and w2: "writable (fp_config c) [''excalibur'', ''bitdepth'']"
  shows "fst (set_bitdepth b c) = Inl e
       \<and> lookup_path (fr_config (snd (set_bitdepth b c))) [''decoder_config'', ''bitdepth'']
           = Some (JStr (s @ ''-bit''))
       \<and> lookup_path (fp_config (snd (set_bitdepth b c))) [''excalibur'', ''bitdepth'']
           = Some (JStr (s @ ''-bit''))"
proof -
  obtain c2 where run: "set_bitdepth b c =
            bindA (liftE (rdtype_lookup b)) (\<lambda>rdtype.
              write_leaf FpConfig [] [''hdf'', ''dataset'', ''data'', ''datatype''] (JInt rdtype)) c2"
    and fr: "lookup_path (fr_config c2) [''decoder_config'', ''bitdepth'']
               = Some (JStr (s @ ''-bit''))"
    and ex: "lookup_path (fp_config c2) [''excalibur'', ''bitdepth'']
               = Some (JStr (s @ ''-bit''))"
    using set_bitdepth_strings [OF fmt w1 w2] by auto
  have "set_bitdepth b c = (Inl e, c2)"
    unfolding run by (simp add: b act_defs)
  then show ?thesis using fr ex by simp
qed

lemma thenA_fails:
  assumes "\<And>c. \<exists>e. fst (n c) = Inl e"
  shows "\<exists>e. fst (thenA m n c) = Inl e"
proof (cases "m c")
  case (Pair r c')
  then show ?thesis using assms [of c'] by (cases r) (simp_all add: thenA_def bindA_def)
qed

lemma set_bitdepth_always_fails:
  assumes "rdtype_lookup b = Inl e"
  shows "\<exists>e'. fst (set_bitdepth b c) = Inl e'"
proof (cases "format_d b")
  case (Inl e')
  then show ?thesis by (simp add: set_bitdepth_unformatted)
next
  case (Inr s)
  show ?thesis
    unfolding set_bitdepth_formatted [OF Inr]
    by (intro thenA_fails) (simp add: assms act_defs)
qed

text \<open>
  C8. For a bit depth \<open>b\<close> among 1, 6, 12 and 24, and trees in which nothing but
  sections lies on the way to the three leaves, \<^verbatim>\<open>set_bitdepth\<close> returns normally;
  afterwards \<^verbatim>\<open>hdf.dataset.data.datatype\<close> of the processor tree holds the code of
  the table (0, 0, 1, 2), and \<^verbatim>\<open>decoder_config.bitdepth\<close> of the receiver tree
  and \<^verbatim>\<open>excalibur.bitdepth\<close> of the processor tree both hold the string
  \<^verbatim>\<open>1-bit\<close>, \<^verbatim>\<open>6-bit\<close>, \<^verbatim>\<open>12-bit\<close> or \<^verbatim>\<open>24-bit\<close> of that bit
  depth. The witness is the scenario of the specification: bit depth 12 on the initial
  client.
\<close>

theorem set_bitdepth_table:
  assumes "b \<in> {1, 6, 12, 24}"
    and "writable (fr_config c) [''decoder_config'', ''bitdepth'']"
    and "writable (fp_config c) [''excalibur'', ''bitdepth'']"
    and "writable (fp_config c) [''hdf'', ''dataset'', ''data'', ''datatype'']"
  shows "fst (set_bitdepth b c) = Inr ()
       \<and> lookup_path (fp_config (snd (set_bitdepth b c))) [''hdf'', ''dataset'', ''data'', ''datatype'']
           = Some (JInt (if b = 1 then 0 else if b = 6 then 0 else if b = 12 then 1 else 2))
       \<and> lookup_path (fr_config (snd (set_bitdepth b c))) [''decoder_config'', ''bitdepth'']
           = Some (JStr (if b = 1 then ''1-bit'' else if b = 6 then ''6-bit''
                         else if b = 12 then ''12-bit'' else ''24-bit''))
       \<and> lookup_path (fp_config (snd (set_bitdepth b c))) [''excalibur'', ''bitdepth'']
           = Some (JStr (if b = 1 then ''1-bit'' else if b = 6 then ''6-bit''
                         else if b = 12 then ''12-bit'' else ''24-bit''))"
proof -
  have code: "rdtype_lookup b
                = Inr (if b = 1 then 0 else if b = 6 then 0 else if b = 12 then 1 else 2)"
    using assms(1) by (auto simp add: rdtype_lookup_cases)
  have fmt: "format_d b
               = Inr (if b = 1 then ''1'' else if b = 6 then ''6''
                      else if b = 12 then ''12'' else ''24'')"
    using assms(1) by (auto simp add: format_d_table)
  have "(if b = 1 then ''1'' else if b = 6 then ''6'' else if b = 12 then ''12'' else ''24'')
          @ ''-bit''
        = (if b = 1 then ''1-bit'' else if b = 6 then ''6-bit''
           else if b = 12 then ''12-bit'' else ''24-bit'')"
    by simp
  then show ?thesis
    using set_bitdepth_supported [OF code fmt assms(2-4)] by simp
qed

theorem set_bitdepth_table_witness:
  "fst (set_bitdepth 12 init_client) = Inr ()
   \<and> lookup_path (fp_config (snd (set_bitdepth 12 init_client))) [''excalibur'', ''bitdepth'']
       = Some (JStr ''12-bit'')
   \<and> lookup_path (fr_config (snd (set_bitdepth 12 init_client))) [''decoder_config'', ''bitdepth'']
       = Some (JStr ''12-bit'')
   \<and> lookup_path (fp_config (snd (set_bitdepth 12 init_client)))
        [''hdf'', ''dataset'', ''data'', ''datatype'']
       = Some (JInt 1)"
  using set_bitdepth_table [of 12 init_client]
  by (simp add: init_client_def writable_def absent_or_section_def)

text \<open>
  C4. For a bit depth outside 1, 6, 12 and 24, \<^verbatim>\<open>set_bitdepth\<close> never returns
  normally, from any state. A value of more than 4300 digits fails in the formatting
  of the string, with \<^verbatim>\<open>ValueError\<close> and the state untouched; for any other
  value, when the two bit depth strings can be written, the error is the
  \<^verbatim>\<open>KeyError\<close> of the table lookup, carrying the rejected value.
\<close>

theorem set_bitdepth_rejects:
  assumes "b \<notin> {1, 6, 12, 24}"
  shows "(\<exists>e. fst (set_bitdepth b c) = Inl e)
       \<and> (10 ^ int_max_str_digits \<le> \<bar>b\<bar> \<longrightarrow> set_bitdepth b c = (Inl ValueError, c))
       \<and> (\<bar>b\<bar> < 10 ^ int_max_str_digits
          \<and> writable (fr_config c) [''decoder_config'', ''bitdepth'']
          \<and> writable (fp_config c) [''excalibur'', ''bitdepth'']
          \<longrightarrow> fst (set_bitdepth b c) = Inl (KeyError (JInt b)))"
proof -
  have "rdtype_lookup b = Inl (KeyError (JInt b))"
    using assms by (simp add: rdtype_lookup_cases)
  then show ?thesis
    using set_bitdepth_always_fails [of b _ c]
      set_bitdepth_unsupported [of b _ "show_int b" c]
      set_bitdepth_unformatted [OF format_d_long, of b c]
      format_d_short [of b]
    by blast
qed

theorem set_bitdepth_rejects_witness:
  "fst (set_bitdepth 8 init_client) = Inl (KeyError (JInt 8))"
proof -
  have "\<bar>8::int\<bar> < 10 ^ 1" by simp
  also have "(10::int) ^ 1 \<le> 10 ^ int_max_str_digits"
    by (rule power_increasing) (simp_all add: int_max_str_digits_def)
  finally show ?thesis
    using set_bitdepth_rejects [of 8 init_client]
    by (simp add: init_client_def writable_def absent_or_section_def)
qed

text \<open>
  C5. For a bit depth outside 1, 6, 12 and 24 that has at most 4300 digits, and trees in
  which nothing but sections lies on the way to the two bit depth leaves, the call
  fails with the \<^verbatim>\<open>KeyError\<close> and the state it leaves behind has the string
  already written in \<^verbatim>\<open>decoder_config.bitdepth\<close> of the receiver tree and in
  \<^verbatim>\<open>excalibur.bitdepth\<close> of the processor tree. The string is a minus sign when
  the value is negative, the decimal numeral of its absolute value, and
  \<^verbatim>\<open>-bit\<close>. A bit depth of more than 4300 digits fails earlier, in the formatting
  of that string, with \<^verbatim>\<open>ValueError\<close>, and the call leaves the state as it
  found it.
\<close>

theorem set_bitdepth_not_atomic:
  assumes "b \<notin> {1, 6, 12, 24}"
  shows "(\<bar>b\<bar> < 10 ^ int_max_str_digits
          \<and> writable (fr_config c) [''decoder_config'', ''bitdepth'']
          \<and> writable (fp_config c) [''excalibur'', ''bitdepth'']
          \<longrightarrow> fst (set_bitdepth b c) = Inl (KeyError (JInt b))
            \<and> (\<exists>ds. is_decimal ds \<and> decimal_value ds = nat \<bar>b\<bar>
                \<and> lookup_path (fr_config (snd (set_bitdepth b c))) [''decoder_config'', ''bitdepth'']
                    = Some (JStr ((if b < 0 then ''-'' else []) @ ds @ ''-bit''))
                \<and> lookup_path (fp_config (snd (set_bitdepth b c))) [''excalibur'', ''bitdepth'']
                    = Some (JStr ((if b < 0 then ''-'' else []) @ ds @ ''-bit''))))
       \<and> (10 ^ int_max_str_digits \<le> \<bar>b\<bar> \<longrightarrow> set_bitdepth b c = (Inl ValueError, c))"
proof (intro conjI impI)
  assume short: "\<bar>b\<bar> < 10 ^ int_max_str_digits
          \<and> writable (fr_config c) [''decoder_config'', ''bitdepth'']
          \<and> writable (fp_config c) [''excalibur'', ''bitdepth'']"
  have lookup: "rdtype_lookup b = Inl (KeyError (JInt b))"
    using assms by (simp add: rdtype_lookup_cases)
  have fmt: "format_d b = Inr ((if b < 0 then ''-'' else []) @ digits (nat \<bar>b\<bar>))"
    using format_d_short [of b] short by (simp only: show_int_sign)
  have run: "fst (set_bitdepth b c) = Inl (KeyError (JInt b))
       \<and> lookup_path (fr_config (snd (set_bitdepth b c))) [''decoder_config'', ''bitdepth'']
           = Some (JStr (((if b < 0 then ''-'' else []) @ digits (nat \<bar>b\<bar>)) @ ''-bit''))
       \<and> lookup_path (fp_config (snd (set_bitdepth b c))) [''excalibur'', ''bitdepth'']
           = Some (JStr (((if b < 0 then ''-'' else []) @ digits (nat \<bar>b\<bar>)) @ ''-bit''))"
    using lookup fmt short by (intro set_bitdepth_unsupported) simp_all
  show "fst (set_bitdepth b c) = Inl (KeyError (JInt b))"
    using run by simp
  show "\<exists>ds. is_decimal ds \<and> decimal_value ds = nat \<bar>b\<bar>
           \<and> lookup_path (fr_config (snd (set_bitdepth b c))) [''decoder_config'', ''bitdepth'']
               = Some (JStr ((if b < 0 then ''-'' else []) @ ds @ ''-bit''))
           \<and> lookup_path (fp_config (snd (set_bitdepth b c))) [''excalibur'', ''bitdepth'']
               = Some (JStr ((if b < 0 then ''-'' else []) @ ds @ ''-bit''))"
    using run digits_decimal [of "nat \<bar>b\<bar>"]
    by (intro exI [of _ "digits (nat \<bar>b\<bar>)"]) simp
next
  assume "10 ^ int_max_str_digits \<le> \<bar>b\<bar>"
  then have "format_d b = Inl ValueError" by (rule format_d_long)
  then show "set_bitdepth b c = (Inl ValueError, c)" by (rule set_bitdepth_unformatted)
qed

lemma decimal_8: "is_decimal ''8'' \<and> decimal_value ''8'' = 8"
  by code_simp

theorem set_bitdepth_not_atomic_witness:
  "fst (set_bitdepth 8 init_client) = Inl (KeyError (JInt 8))
   \<and> lookup_path (fr_config init_client) [''decoder_config'', ''bitdepth''] = None
   \<and> lookup_path (fp_config init_client) [''excalibur'', ''bitdepth''] = None
   \<and> lookup_path (fr_config (snd (set_bitdepth 8 init_client))) [''decoder_config'', ''bitdepth'']
       = Some (JStr ''8-bit'')
   \<and> lookup_path (fp_config (snd (set_bitdepth 8 init_client))) [''excalibur'', ''bitdepth'']
       = Some (JStr ''8-bit'')
   \<and> is_decimal ''8'' \<and> decimal_value ''8'' = 8
   \<and> (\<exists>ds. is_decimal ds \<and> decimal_value ds = 8
       \<and> lookup_path (fr_config (snd (set_bitdepth 8 init_client))) [''decoder_config'', ''bitdepth'']
           = Some (JStr (ds @ ''-bit''))
       \<and> lookup_path (fp_config (snd (set_bitdepth 8 init_client))) [''excalibur'', ''bitdepth'']
           = Some (JStr (ds @ ''-bit'')))"
proof -
  have "\<bar>8::int\<bar> < 10 ^ 1" by simp
  also have "(10::int) ^ 1 \<le> 10 ^ int_max_str_digits"
    by (rule power_increasing) (simp_all add: int_max_str_digits_def)
  finally have short: "\<bar>8::int\<bar> < 10 ^ int_max_str_digits" .
  have w: "writable (fr_config init_client) [''decoder_config'', ''bitdepth'']"
    "writable (fp_config init_client) [''excalibur'', ''bitdepth'']"
    by (simp_all add: init_client_def writable_def absent_or_section_def)
  have "rdtype_lookup 8 = Inl (KeyError (JInt 8))"
    by (simp add: rdtype_lookup_cases)
  then have literal:
    "lookup_path (fr_config (snd (set_bitdepth 8 init_client))) [''decoder_config'', ''bitdepth'']
       = Some (JStr ''8-bit'')
     \<and> lookup_path (fp_config (snd (set_bitdepth 8 init_client))) [''excalibur'', ''bitdepth'']
       = Some (JStr ''8-bit'')"
    using set_bitdepth_unsupported [of 8 _ "''8''" init_client] w by (simp add: format_d_8)
  have before: "lookup_path (fr_config init_client) [''decoder_config'', ''bitdepth''] = None"
    "lookup_path (fp_config init_client) [''excalibur'', ''bitdepth''] = None"
    by (simp_all add: init_client_def)
  show ?thesis
    using set_bitdepth_not_atomic [of 8 init_client] short w literal before decimal_8
    by simp
qed

text \<open>
  The value of the counterexample is \<open>10 ^ 4300\<close>, the least integer of 4301 digits. It
  is outside the table, and \<^verbatim>\<open>set_bitdepth\<close> fails on it while formatting the
  string, with \<^verbatim>\<open>ValueError\<close>: the initial client is left as it was, with neither
  tree written.
\<close>

theorem set_bitdepth_unwritten_counterexample:
  "(10::int) ^ int_max_str_digits \<notin> {1, 6, 12, 24}
   \<and> set_bitdepth (10 ^ int_max_str_digits) init_client = (Inl ValueError, init_client)
   \<and> lookup_path (fr_config init_client) [''decoder_config'', ''bitdepth''] = None
   \<and> lookup_path (fp_config init_client) [''excalibur'', ''bitdepth''] = None"
proof -
  have "(10::int) ^ 2 \<le> 10 ^ int_max_str_digits"
    by (rule power_increasing) (simp_all add: int_max_str_digits_def)
  then have "(10::int) ^ int_max_str_digits \<notin> {1, 6, 12, 24}" by auto
  moreover have "format_d (10 ^ int_max_str_digits) = Inl ValueError"
    by (rule format_d_long) simp
  then have "set_bitdepth (10 ^ int_max_str_digits) init_client = (Inl ValueError, init_client)"
    by (rule set_bitdepth_unformatted)
  moreover have "lookup_path (fr_config init_client) [''decoder_config'', ''bitdepth''] = None"
    "lookup_path (fp_config init_client) [''excalibur'', ''bitdepth''] = None"
    by (simp_all add: init_client_def)
  ultimately show ?thesis by simp
qed

subsection \<open>Session fields and their leaves\<close>

lemma for_range_keeps:
  assumes "\<And>c. g (snd (body c)) = g c"
  shows "g (snd (for_range n body c)) = g c"
proof (induction n arbitrary: c)
  case 0
  show ?case by (simp add: returnA_def)
next
  case (Suc n)
  show ?case by (simp add: thenA_keeps assms Suc.IH)
qed

lemma send_cmd_keeps:
  assumes "\<And>c a. g (c\<lparr>msg_counter := a\<rparr>) = g c"
    and "\<And>c x. g (c\<lparr>trace := x\<rparr>) = g c"
    and "\<And>c n. g (c\<lparr>polls := n\<rparr>) = g c"
  shows "g (snd (send_cmd net ch cmd ps c)) = g c"
  by (simp add: send_cmd_eq assms)

lemma got_response_keeps:
  assumes "\<And>c x. g (c\<lparr>trace := x\<rparr>) = g c"
  shows "g (snd (got_response r c)) = g c"
  by (simp add: got_response_eq assms)

lemma logger_keeps:
  assumes "\<And>c x. g (c\<lparr>trace := x\<rparr>) = g c"
  shows "g (snd (logger lv text c)) = g c"
  by (simp add: logger_eq assms)

lemma reading_state [simp]: "snd (reading f c) = c"
  by (simp add: reading_def)

lemma returnA_state [simp]: "snd (returnA x c) = c"
  by (simp add: returnA_def)

lemma discard_keeps:
  assumes "\<And>c. g (snd (m c)) = g c"
  shows "g (snd (discard m c)) = g c"
  unfolding discard_def by (rule bindA_keeps) (simp_all add: assms)

lemma status_round_keeps:
  assumes "\<And>c a. g (c\<lparr>msg_counter := a\<rparr>) = g c"
    and "\<And>c x. g (c\<lparr>trace := x\<rparr>) = g c"
    and "\<And>c n. g (c\<lparr>polls := n\<rparr>) = g c"
  shows "g (snd (status_round net c)) = g c"
  by (simp add: status_round_eq assms split: option.splits sum.splits)

lemma do_config_cmd_keeps:
  assumes a: "\<And>c a. g (c\<lparr>msg_counter := a\<rparr>) = g c"
    and b: "\<And>c x. g (c\<lparr>trace := x\<rparr>) = g c"
    and d: "\<And>c n. g (c\<lparr>polls := n\<rparr>) = g c"
  shows "g (snd (do_config_cmd net c)) = g c"
proof -
  note send = send_cmd_keeps [of g, OF a b d]
  have s: "g (snd (discard (send_config_cmd net ch ps) c)) = g c" for ch ps c
    unfolding send_config_cmd_def by (rule discard_keeps) (rule send)
  have 1: "g (snd (config_receiver net c)) = g c" for c
    unfolding config_receiver_def
    by (intro thenA_keeps bindA_keeps) (simp_all add: logger_keeps b s)
  have 2: "g (snd (config_fr_setup net c)) = g c" for c
    unfolding config_fr_setup_def
    by (intro bindA_keeps) (auto simp add: liftE_state logger_keeps b s intro!: thenA_keeps bindA_keeps)
  have 3: "g (snd (for_range 10 (status_round net) c)) = g c" for c
    by (rule for_range_keeps) (rule status_round_keeps [of g, OF a b d])
  have 4: "g (snd (config_plugins net c)) = g c" for c
    unfolding config_plugins_def
    by (intro bindA_keeps)
       (auto simp add: liftE_state logger_keeps b s intro!: thenA_keeps bindA_keeps for_each_keeps)
  have 5: "g (snd (config_processor net c)) = g c" for c
    unfolding config_processor_def
    by (intro thenA_keeps bindA_keeps) (simp_all add: logger_keeps b s)
  show ?thesis
    unfolding do_config_cmd_def block.simps
    by (intro thenA_keeps) (simp_all add: 1 2 3 4 5)
qed

lemma do_cmd_keeps:
  assumes a: "\<And>c a. g (c\<lparr>msg_counter := a\<rparr>) = g c"
    and b: "\<And>c x. g (c\<lparr>trace := x\<rparr>) = g c"
    and d: "\<And>c n. g (c\<lparr>polls := n\<rparr>) = g c"
  shows "g (snd (do_cmd net cmd cmd_name c)) = g c"
  unfolding do_cmd_def
  by (rule for_each_keeps)
     (auto simp add: logger_keeps b send_cmd_keeps [of g, OF a b d] got_response_keeps
        intro!: thenA_keeps bindA_keeps)

lemma do_status_cmd_keeps:
  assumes a: "\<And>c a. g (c\<lparr>msg_counter := a\<rparr>) = g c"
    and b: "\<And>c x. g (c\<lparr>trace := x\<rparr>) = g c"
    and d: "\<And>c n. g (c\<lparr>polls := n\<rparr>) = g c"
  shows "g (snd (do_status_cmd net c)) = g c"
  unfolding do_status_cmd_def send_status_cmd_def
  by (rule for_each_keeps)
     (auto simp add: logger_keeps b send_cmd_keeps [of g, OF a b d] got_response_keeps
        intro!: thenA_keeps bindA_keeps)

lemma do_shutdown_cmd_keeps:
  assumes a: "\<And>c a. g (c\<lparr>msg_counter := a\<rparr>) = g c"
    and b: "\<And>c x. g (c\<lparr>trace := x\<rparr>) = g c"
    and d: "\<And>c n. g (c\<lparr>polls := n\<rparr>) = g c"
  shows "g (snd (do_shutdown_cmd net c)) = g c"
  unfolding do_shutdown_cmd_def block.simps send_config_cmd_def
  by (intro thenA_keeps bindA_keeps)
     (simp_all add: logger_keeps b send_cmd_keeps [of g, OF a b d] got_response_keeps)


lemma write_leaf_fields [simp]:
  "frames (snd (write_leaf tr p ks v c)) = frames c"
  "file_path (snd (write_leaf tr p ks v c)) = file_path c"
  "file_name (snd (write_leaf tr p ks v c)) = file_name c"
  "fp_plugins (snd (write_leaf tr p ks v c)) = fp_plugins c"
  "msg_counter (snd (write_leaf tr p ks v c)) = msg_counter c"
  "polls (snd (write_leaf tr p ks v c)) = polls c"
  by (rule write_leaf_keeps; simp)+

lemma write_leaf_other_tree [simp]:
  "fp_config (snd (write_leaf FrConfig p ks v c)) = fp_config c"
  "fr_config (snd (write_leaf FpConfig p ks v c)) = fr_config c"
  by (rule write_leaf_keeps; simp)+

lemma write_leaf_frame_fp:
  "\<not> prefix q (p @ ks) \<Longrightarrow> \<not> prefix (p @ ks) q \<Longrightarrow>
   lookup_path (fp_config (snd (write_leaf FpConfig p ks v c))) q = lookup_path (fp_config c) q"
  using write_leaf_frame [of q p ks FpConfig v c] by simp

lemma write_leaf_frame_fr:
  "\<not> prefix q (p @ ks) \<Longrightarrow> \<not> prefix (p @ ks) q \<Longrightarrow>
   lookup_path (fr_config (snd (write_leaf FrConfig p ks v c))) q = lookup_path (fr_config c) q"
  using write_leaf_frame [of q p ks FrConfig v c] by simp

lemma write_leaf_leaf_fp:
  "ks \<noteq> [] \<Longrightarrow> leaf_agrees (fp_config (snd (write_leaf FpConfig p ks v c))) (p @ ks) v"
  using write_leaf_leaf [of ks FpConfig p v c] by simp

lemma projection_write_fr:
  "projection (snd (write_leaf FrConfig p ks v c)) = projection c"
  by (simp add: projection_def)

lemma projection_write_fp_other:
  assumes "\<not> prefix [''hdf'', ''frames''] (p @ ks)" "\<not> prefix (p @ ks) [''hdf'', ''frames'']"
    and "\<not> prefix [''hdf'', ''file'', ''path''] (p @ ks)" "\<not> prefix (p @ ks) [''hdf'', ''file'', ''path'']"
    and "\<not> prefix [''hdf'', ''file'', ''name''] (p @ ks)" "\<not> prefix (p @ ks) [''hdf'', ''file'', ''name'']"
  shows "projection (snd (write_leaf FpConfig p ks v c)) = projection c"
  using assms by (simp add: projection_def leaf_agrees_def write_leaf_frame_fp)

lemma modify_eq: "modify f c = (Inr (), f c)"
  by (simp add: modify_def)

lemma set_num_frames_state:
  "snd (set_num_frames n c) = snd (write_leaf FpConfig [] [''hdf'', ''frames''] (JInt n) (c\<lparr>frames := n\<rparr>))"
  by (simp add: set_num_frames_write thenA_def bindA_def modify_eq)

lemma set_file_path_state:
  "snd (set_file_path p c) =
     snd (write_leaf FpConfig [] [''hdf'', ''file'', ''path''] (JStr p) (c\<lparr>file_path := p\<rparr>))"
  by (simp add: set_file_path_write thenA_def bindA_def modify_eq)

lemma set_file_name_state:
  "snd (set_file_name f c) =
     snd (write_leaf FpConfig [] [''hdf'', ''file'', ''name''] (JStr f) (c\<lparr>file_name := f\<rparr>))"
  by (simp add: set_file_name_write thenA_def bindA_def modify_eq)

lemma set_num_frames_projection:
  assumes "projection c"
  shows "projection (snd (set_num_frames n c))"
  using assms write_leaf_leaf_fp [of "[''hdf'', ''frames'']" "[]" "JInt n" "c\<lparr>frames := n\<rparr>"]
  by (simp add: set_num_frames_state projection_def leaf_agrees_def write_leaf_frame_fp)

lemma set_file_path_projection:
  assumes "projection c"
  shows "projection (snd (set_file_path p c))"
  using assms write_leaf_leaf_fp [of "[''hdf'', ''file'', ''path'']" "[]" "JStr p" "c\<lparr>file_path := p\<rparr>"]
  by (simp add: set_file_path_state projection_def leaf_agrees_def write_leaf_frame_fp)

lemma set_file_name_projection:
  assumes "projection c"
  shows "projection (snd (set_file_name f c))"
  using assms write_leaf_leaf_fp [of "[''hdf'', ''file'', ''name'']" "[]" "JStr f" "c\<lparr>file_name := f\<rparr>"]
  by (simp add: set_file_name_state projection_def leaf_agrees_def write_leaf_frame_fp)

lemma set_bitdepth_projection: "projection (snd (set_bitdepth b c)) = projection c"
  unfolding set_bitdepth_write
  by (intro thenA_keeps bindA_keeps)
     (simp_all add: projection_write_fr projection_write_fp_other liftE_state)

lemma bindA_preserves:
  assumes "P c" and "\<And>c. P c \<Longrightarrow> P (snd (m c))" and "\<And>x c. P c \<Longrightarrow> P (snd (f x c))"
  shows "P (snd (bindA m f c))"
proof (cases "m c")
  case (Pair r c')
  then have "P c'" using assms(1) assms(2) [of c] by simp
  then show ?thesis using Pair assms(3) by (cases r) (simp_all add: bindA_def)
qed

lemma thenA_preserves:
  assumes "P c" and "\<And>c. P c \<Longrightarrow> P (snd (m c))" and "\<And>c. P c \<Longrightarrow> P (snd (n c))"
  shows "P (snd (thenA m n c))"
  unfolding thenA_def using assms by (rule bindA_preserves)

lemma for_each_preserves:
  assumes "P c" and "\<And>x c. x \<in> set xs \<Longrightarrow> P c \<Longrightarrow> P (snd (body x c))"
  shows "P (snd (for_each xs body c))"
  using assms
proof (induction xs arbitrary: c)
  case Nil
  then show ?case by simp
next
  case (Cons x xs)
  show ?case
    unfolding for_each.simps
    by (rule thenA_preserves [of P, OF Cons.prems(1)]) (simp_all add: Cons)
qed

lemma assign_write: "assign (tr, p) k v = write_leaf tr p [k] v"
  by (simp add: write_leaf.simps)

lemma assign_frames_projection:
  assumes "projection c"
  shows "projection (snd (assign (FpConfig, [''hdf'']) ''frames'' (JInt (frames c)) c))"
  using assms write_leaf_leaf_fp [of "[''frames'']" "[''hdf'']" "JInt (frames c)" c]
  by (simp add: assign_write projection_def leaf_agrees_def write_leaf_frame_fp)

lemma assign_write_projection:
  "projection (snd (assign (FpConfig, [''hdf'']) ''write'' v c)) = projection c"
  unfolding assign_write by (rule projection_write_fp_other) simp_all

lemma bindA_reading: "bindA (reading f) k c = k (f c) c"
  by (simp add: bindA_def reading_def)

lemma block_preserves:
  assumes "P c" and "\<And>m c. m \<in> set ms \<Longrightarrow> P c \<Longrightarrow> P (snd (m c))"
  shows "P (snd (block ms c))"
  using assms
proof (induction ms arbitrary: c)
  case Nil
  then show ?case by simp
next
  case (Cons m ms)
  show ?case
    unfolding block.simps
    by (rule thenA_preserves [of P, OF Cons.prems(1)]) (simp_all add: Cons)
qed

lemma deref_state: "snd (deref r c) = c"
  by (cases r) (simp add: deref_eq split: sum.splits)

lemma projection_send:
  "projection (snd (discard (send_config_cmd net ch ps) c)) = projection c"
  unfolding send_config_cmd_def
  by (rule discard_keeps) (rule send_cmd_keeps; simp add: projection_def)

lemma projection_logger: "projection (snd (logger lv text c)) = projection c"
  by (rule logger_keeps) (simp add: projection_def)

lemma projection_send_hdf:
  "projection (snd (bindA (deref (FpConfig, [''hdf''])) (\<lambda>hdf.
       discard (send_config_cmd net FpCtrl (JObj [(''hdf'', hdf)]))) c)) = projection c"
  by (rule bindA_keeps) (simp_all add: deref_state projection_send)

lemma set_file_writing_projection:
  assumes "projection c"
  shows "projection (snd (set_file_writing net enable c))"
  unfolding set_file_writing_def
proof (rule block_preserves [of projection, OF assms])
  fix m :: "unit act" and c
  assume m: "m \<in> set [bindA (reading file_name) set_file_name,
       bindA (reading file_path) set_file_path,
       bindA (reading frames) set_num_frames,
       bindA (reading frames) (\<lambda>n. assign (FpConfig, [''hdf'']) ''frames'' (JInt n)),
       assign (FpConfig, [''hdf'']) ''write'' (JBool enable),
       logger Info (''Sending file writing '' @ (if enable then ''enable'' else ''disable'')
                      @ '' command to frame processor''),
       bindA (deref (FpConfig, [''hdf''])) (\<lambda>hdf.
         discard (send_config_cmd net FpCtrl (JObj [(''hdf'', hdf)])))]"
    and c: "projection c"
  consider "m = bindA (reading file_name) set_file_name"
    | "m = bindA (reading file_path) set_file_path"
    | "m = bindA (reading frames) set_num_frames"
    | "m = bindA (reading frames) (\<lambda>n. assign (FpConfig, [''hdf'']) ''frames'' (JInt n))"
    | "m = assign (FpConfig, [''hdf'']) ''write'' (JBool enable)"
    | "m = logger Info (''Sending file writing '' @ (if enable then ''enable'' else ''disable'')
                      @ '' command to frame processor'')"
    | "m = bindA (deref (FpConfig, [''hdf''])) (\<lambda>hdf.
         discard (send_config_cmd net FpCtrl (JObj [(''hdf'', hdf)])))"
    using m unfolding set_simps by blast
  then show "projection (snd (m c))"
  proof cases
    case 1
    then show ?thesis using c by (simp only: bindA_reading set_file_name_projection)
  next
    case 2
    then show ?thesis using c by (simp only: bindA_reading set_file_path_projection)
  next
    case 3
    then show ?thesis using c by (simp only: bindA_reading set_num_frames_projection)
  next
    case 4
    then show ?thesis using c by (simp only: bindA_reading assign_frames_projection)
  next
    case 5
    then show ?thesis using c by (simp only: assign_write_projection)
  next
    case 6
    then show ?thesis using c by (simp only: projection_logger)
  next
    case 7
    then show ?thesis using c by (simp only: projection_send_hdf)
  qed
qed

lemma load_config_breaks_projection:
  "\<not> projection (snd (load_config
      \<lparr>name = ''defaults.json'',
       json_load = Decoded (JObj [(''processor_default_config'',
                     JObj [(''hdf'', JObj [(''frames'', JInt 5)])])])\<rparr>
      init_client))"
  by (simp add: load_config_def install_def act_defs projection_def leaf_agrees_def init_client_def)

lemma perform_projection:
  assumes "projection c" and "\<not> is_load_config op"
  shows "projection (snd (perform net op c))"
proof (cases op)
  case (LoadConfig cfg)
  then show ?thesis using assms by simp
next
  case (SetNumFrames n)
  then show ?thesis using assms by (simp add: set_num_frames_projection)
next
  case (SetBitdepth b)
  then show ?thesis using assms by (simp add: set_bitdepth_projection)
next
  case (SetFilePath p)
  then show ?thesis using assms by (simp add: set_file_path_projection)
next
  case (SetFileName f)
  then show ?thesis using assms by (simp add: set_file_name_projection)
next
  case DoConfigCmd
  have "projection (snd (do_config_cmd net c)) = projection c"
    by (rule do_config_cmd_keeps) (simp_all add: projection_def)
  then show ?thesis using DoConfigCmd assms by simp
next
  case (SetFileWriting enable)
  then show ?thesis using assms by (simp add: set_file_writing_projection)
next
  case DoStatusCmd
  have "projection (snd (do_status_cmd net c)) = projection c"
    by (rule do_status_cmd_keeps) (simp_all add: projection_def)
  then show ?thesis using DoStatusCmd assms by simp
next
  case DoRequestConfigCmd
  have "projection (snd (do_request_config_cmd net c)) = projection c"
    unfolding do_request_config_cmd_def by (rule do_cmd_keeps) (simp_all add: projection_def)
  then show ?thesis using DoRequestConfigCmd assms by simp
next
  case DoRequestVersionCmd
  have "projection (snd (do_request_version_cmd net c)) = projection c"
    unfolding do_request_version_cmd_def by (rule do_cmd_keeps) (simp_all add: projection_def)
  then show ?thesis using DoRequestVersionCmd assms by simp
next
  case DoResetStatsCmd
  have "projection (snd (do_reset_stats_cmd net c)) = projection c"
    unfolding do_reset_stats_cmd_def by (rule do_cmd_keeps) (simp_all add: projection_def)
  then show ?thesis using DoResetStatsCmd assms by simp
next
  case DoShutdownCmd
  have "projection (snd (do_shutdown_cmd net c)) = projection c"
    by (rule do_shutdown_cmd_keeps) (simp_all add: projection_def)
  then show ?thesis using DoShutdownCmd assms by simp
qed

text \<open>
  C2, as the code has it. The three leaves agree with the session fields on the initial
  client, and every operation other than \<^verbatim>\<open>load_config\<close> keeps them in
  agreement, whether it returns or raises; so they agree after every run of such
  operations from the initial client.
\<close>

theorem projection_preserved:
  assumes "\<not> is_load_config op" and "\<forall>op \<in> set ops. \<not> is_load_config op"
  shows "projection init_client
       \<and> (projection c \<longrightarrow> projection (snd (perform net op c)))
       \<and> projection (snd (for_each ops (perform net) init_client))"
proof -
  have init: "projection init_client"
    by (simp add: projection_def leaf_agrees_def init_client_def)
  moreover have "projection (snd (for_each ops (perform net) init_client))"
    using init assms(2) by (intro for_each_preserves [of projection]) (simp_all add: perform_projection)
  ultimately show ?thesis
    using assms(1) by (simp add: perform_projection)
qed

theorem projection_preserved_witness:
  "projection (snd (perform no_reply (SetNumFrames 5) init_client))
   \<and> projection (snd (for_each [SetFilePath ''/data'', SetBitdepth 12, SetFileWriting True]
                         (perform no_reply) init_client))"
  using projection_preserved
    [of "SetNumFrames 5" "[SetFilePath ''/data'', SetBitdepth 12, SetFileWriting True]"
        init_client no_reply]
  by simp

text \<open>
  The claim C2 as stated fails for \<^verbatim>\<open>load_config\<close>: it installs the processor
  section of the document and leaves the session fields alone. After loading a document
  whose \<^verbatim>\<open>hdf.frames\<close> is 5 the leaf holds 5 and the session field holds 1.
\<close>

theorem load_config_projection_counterexample:
  "\<not> projection (snd (perform no_reply (LoadConfig
      \<lparr>name = ''defaults.json'',
       json_load = Decoded (JObj [(''processor_default_config'',
                     JObj [(''hdf'', JObj [(''frames'', JInt 5)])])])\<rparr>)
      init_client))"
  using load_config_breaks_projection by simp

subsection \<open>File writing\<close>

lemma ensure_sends:
  "filter is_send (trace (snd (ensure_config_section (tr, p) k c))) = filter is_send (trace c)"
proof (cases "section_at (tree_of tr c) p")
  case True
  then obtain kvs where "lookup_path (tree_of tr c) p = Some (JObj kvs)" by (rule section_atE)
  then show ?thesis by (simp add: ensure_section)
next
  case False
  then show ?thesis by (simp add: ensure_no_section)
qed

lemma write_leaf_sends:
  "filter is_send (trace (snd (write_leaf tr p ks v c))) = filter is_send (trace c)"
proof (induction tr p ks v arbitrary: c rule: write_leaf.induct)
  case (1 tr p v)
  show ?case by (simp add: write_leaf.simps)
next
  case (2 tr p k v)
  show ?case
    unfolding write_leaf.simps
    by (rule assign_keeps [where g = "\<lambda>c. filter is_send (trace c)"]) simp
next
  case (3 tr p k k' ks v)
  show ?case
    unfolding write_leaf.simps
    by (rule thenA_keeps [where g = "\<lambda>c. filter is_send (trace c)"])
       (simp_all add: ensure_sends 3)
qed

lemma write_root_ok:
  assumes "w \<noteq> []" and "writable (tree_of tr c) w"
  shows "write_leaf tr [] w v c = (Inr (), snd (write_leaf tr [] w v c))"
  using write_leaf_ok [OF assms, of v] by auto

lemma write_root_fst:
  assumes "w \<noteq> []" and "writable (tree_of tr c) w"
  shows "fst (write_leaf tr [] w v c) = Inr ()"
  using write_leaf_ok [OF assms, of v] by auto

lemma write_root_leaf:
  assumes "w \<noteq> []" and "writable (tree_of tr c) w"
  shows "lookup_path (tree_of tr (snd (write_leaf tr [] w v c))) w = Some v"
  using write_leaf_ok [OF assms, of v] by auto

lemma write_root_sections:
  assumes "w \<noteq> []" and "writable (tree_of tr c) w" and "strict_prefix q w"
  shows "section_at (tree_of tr (snd (write_leaf tr [] w v c))) q"
  using write_leaf_ok [OF assms(1,2), of v] assms(3) by auto

lemma write_root_writable:
  assumes "w \<noteq> []" and "writable (tree_of tr c) w"
    and "writable (tree_of tr2 c) w2" and "tr2 = tr \<Longrightarrow> \<not> strict_prefix w w2"
  shows "writable (tree_of tr2 (snd (write_leaf tr [] w v c))) w2"
proof -
  obtain c' where run: "write_leaf tr [] w v c = (Inr (), c')"
    and keep: "\<forall>tr2 w2. writable (tree_of tr2 c) w2 \<longrightarrow> (tr2 = tr \<longrightarrow> \<not> strict_prefix w w2)
                 \<longrightarrow> writable (tree_of tr2 c') w2"
    using write_leaf_ok [OF assms(1,2), of v] by blast
  have "writable (tree_of tr2 c') w2" using keep assms(3,4) by blast
  then show ?thesis using run by simp
qed

lemma assign_as_root_write:
  assumes "section_at (tree_of tr c) [k0]"
  shows "assign (tr, [k0]) k v c = write_leaf tr [] [k0, k] v c"
proof -
  obtain kvs0 where sec: "lookup_path (tree_of tr c) [k0] = Some (JObj kvs0)"
    using assms by (rule section_atE)
  then obtain kvs where top: "tree_of tr c = JObj kvs" and key: "map_of kvs k0 \<noteq> None"
    by (cases "tree_of tr c") (auto split: option.splits)
  have "lookup_path (tree_of tr c) [] = Some (JObj kvs)" using top by simp
  then have "ensure_config_section (tr, []) k0 c = (Inr (), c)"
    using key by (simp add: ensure_section)
  then show ?thesis
    by (simp add: write_leaf.simps thenA_def bindA_def)
qed


lemma lookup_sections:
  assumes "lookup_path t w = Some v" and "strict_prefix q w"
  shows "section_at t q"
proof -
  obtain r where w: "w = q @ r" and r: "r \<noteq> []"
    using assms(2) by (auto simp add: strict_prefix_def prefix_def)
  show ?thesis
  proof (rule ccontr)
    assume "\<not> section_at t q"
    then have "lookup_path t (q @ r) = None" using r by (rule not_section_at_below)
    then show False using assms(1) w by simp
  qed
qed

lemma set_num_frames_run:
  "set_num_frames n c = write_leaf FpConfig [] [''hdf'', ''frames''] (JInt n) (c\<lparr>frames := n\<rparr>)"
  by (simp add: set_num_frames_write thenA_def bindA_def modify_eq)

lemma set_file_path_run:
  "set_file_path p c =
     write_leaf FpConfig [] [''hdf'', ''file'', ''path''] (JStr p) (c\<lparr>file_path := p\<rparr>)"
  by (simp add: set_file_path_write thenA_def bindA_def modify_eq)

lemma set_file_name_run:
  "set_file_name f c =
     write_leaf FpConfig [] [''hdf'', ''file'', ''name''] (JStr f) (c\<lparr>file_name := f\<rparr>)"
  by (simp add: set_file_name_write thenA_def bindA_def modify_eq)

lemma writable_hdf:
  assumes "writable t [''hdf'', ''file'', ''path'']"
  shows "writable t [''hdf'', ''file'', ''name'']" and "writable t [''hdf'', ''frames'']"
    and "writable t [''hdf'', ''write'']"
  using assms by (simp_all add: writable_def)

lemma set_file_writing_run:
  assumes J: "writable (fp_config c) [''hdf'', ''file'', ''path'']"
  obtains c' h where "set_file_writing net enable c = (Inr (), c')"
    and "filter is_send (trace c') = filter is_send (trace c) @
           [Send FpCtrl \<lparr>msg_type = ''cmd'', msg_val = ''configure'',
                         msg_id = (msg_counter c + 1) mod 2 ^ 32,
                         params = Some (JObj [(''hdf'', h)])\<rparr>]"
    and "lookup_path (fp_config c') [''hdf''] = Some h"
    and "lookup_path h [''frames''] = Some (JInt (frames c))"
    and "lookup_path h [''file'', ''path''] = Some (JStr (file_path c))"
    and "lookup_path h [''file'', ''name''] = Some (JStr (file_name c))"
    and "lookup_path h [''write''] = Some (JBool enable)"
    and "frames c' = frames c" and "file_path c' = file_path c" and "file_name c' = file_name c"
    and "fr_config c' = fr_config c"
    and "\<And>q. \<not> prefix [''hdf''] q \<Longrightarrow> q \<noteq> [] \<Longrightarrow>
           lookup_path (fp_config c') q = lookup_path (fp_config c) q"
    and "\<And>q. prefix [''hdf''] q \<Longrightarrow>
           \<not> prefix q [''hdf'', ''file'', ''name''] \<Longrightarrow> \<not> prefix [''hdf'', ''file'', ''name''] q \<Longrightarrow>
           \<not> prefix q [''hdf'', ''file'', ''path''] \<Longrightarrow> \<not> prefix [''hdf'', ''file'', ''path''] q \<Longrightarrow>
           \<not> prefix q [''hdf'', ''frames''] \<Longrightarrow> \<not> prefix [''hdf'', ''frames''] q \<Longrightarrow>
           \<not> prefix q [''hdf'', ''write''] \<Longrightarrow> \<not> prefix [''hdf'', ''write''] q \<Longrightarrow>
           lookup_path (fp_config c') q = lookup_path (fp_config c) q"
    and "\<And>w2. writable (fp_config c) w2 \<Longrightarrow>
           \<not> strict_prefix [''hdf'', ''file'', ''name''] w2 \<Longrightarrow>
           \<not> strict_prefix [''hdf'', ''file'', ''path''] w2 \<Longrightarrow>
           \<not> strict_prefix [''hdf'', ''frames''] w2 \<Longrightarrow>
           \<not> strict_prefix [''hdf'', ''write''] w2 \<Longrightarrow> writable (fp_config c') w2"
proof -
  let ?name = "[''hdf'', ''file'', ''name'']" and ?path = "[''hdf'', ''file'', ''path'']"
  let ?frames = "[''hdf'', ''frames'']" and ?wflag = "[''hdf'', ''write'']"
  define c1 where "c1 = snd (write_leaf FpConfig [] ?name (JStr (file_name c)) (c\<lparr>file_name := file_name c\<rparr>))"
  define c2 where "c2 = snd (write_leaf FpConfig [] ?path (JStr (file_path c)) (c1\<lparr>file_path := file_path c\<rparr>))"
  define c3 where "c3 = snd (write_leaf FpConfig [] ?frames (JInt (frames c)) (c2\<lparr>frames := frames c\<rparr>))"
  define c4 where "c4 = snd (write_leaf FpConfig [] ?frames (JInt (frames c)) c3)"
  define c5 where "c5 = snd (write_leaf FpConfig [] ?wflag (JBool enable) c4)"
  note J' = J writable_hdf [OF J]
  have w0: "writable (fp_config c) w \<Longrightarrow> writable (tree_of FpConfig (c\<lparr>file_name := file_name c\<rparr>)) w" for w
    by simp
  have k1: "writable (fp_config c1) w2" if "writable (fp_config c) w2" "\<not> strict_prefix ?name w2" for w2
    using write_root_writable [of ?name FpConfig "c\<lparr>file_name := file_name c\<rparr>" FpConfig w2
            "JStr (file_name c)"] that J'
    by (simp add: c1_def)
  have k2: "writable (fp_config c2) w2" if "writable (fp_config c1) w2" "\<not> strict_prefix ?path w2" for w2
    using write_root_writable [of ?path FpConfig "c1\<lparr>file_path := file_path c\<rparr>" FpConfig w2
            "JStr (file_path c)"] that k1 [of ?path] J'
    by (simp add: c2_def)
  have w2f: "writable (fp_config c2) ?frames" using k2 [of ?frames] k1 [of ?frames] J' by simp
  have k3: "writable (fp_config c3) w2" if "writable (fp_config c2) w2" "\<not> strict_prefix ?frames w2" for w2
    using write_root_writable [of ?frames FpConfig "c2\<lparr>frames := frames c\<rparr>" FpConfig w2
            "JInt (frames c)"] that w2f
    by (simp add: c3_def)
  have w3f: "writable (fp_config c3) ?frames" using k3 [of ?frames] w2f by simp
  have k4: "writable (fp_config c4) w2" if "writable (fp_config c3) w2" "\<not> strict_prefix ?frames w2" for w2
    using write_root_writable [of ?frames FpConfig c3 FpConfig w2 "JInt (frames c)"] that w3f
    by (simp add: c4_def)
  have w4w: "writable (fp_config c4) ?wflag"
    using k4 [of ?wflag] k3 [of ?wflag] k2 [of ?wflag] k1 [of ?wflag] J' by simp
  have k5: "writable (fp_config c5) w2" if "writable (fp_config c4) w2" "\<not> strict_prefix ?wflag w2" for w2
    using write_root_writable [of ?wflag FpConfig c4 FpConfig w2 "JBool enable"] that w4w
    by (simp add: c5_def)
  have r1: "write_leaf FpConfig [] ?name (JStr (file_name c)) (c\<lparr>file_name := file_name c\<rparr>) = (Inr (), c1)"
    unfolding c1_def using J' by (intro write_root_ok) simp_all
  have r2: "write_leaf FpConfig [] ?path (JStr (file_path c)) (c1\<lparr>file_path := file_path c\<rparr>) = (Inr (), c2)"
    unfolding c2_def using k1 [of ?path] J' by (intro write_root_ok) simp_all
  have r3: "write_leaf FpConfig [] ?frames (JInt (frames c)) (c2\<lparr>frames := frames c\<rparr>) = (Inr (), c3)"
    unfolding c3_def using w2f by (intro write_root_ok) simp_all
  have r4: "write_leaf FpConfig [] ?frames (JInt (frames c)) c3 = (Inr (), c4)"
    unfolding c4_def using w3f by (intro write_root_ok) simp_all
  have r5: "write_leaf FpConfig [] ?wflag (JBool enable) c4 = (Inr (), c5)"
    unfolding c5_def using w4w by (intro write_root_ok) simp_all
  have l1: "lookup_path (fp_config c1) ?name = Some (JStr (file_name c))"
    using write_root_leaf [of ?name FpConfig "c\<lparr>file_name := file_name c\<rparr>" "JStr (file_name c)"] J'
    by (simp add: c1_def)
  have l2: "lookup_path (fp_config c2) ?path = Some (JStr (file_path c))"
    using write_root_leaf [of ?path FpConfig "c1\<lparr>file_path := file_path c\<rparr>" "JStr (file_path c)"]
      k1 [of ?path] J'
    by (simp add: c2_def)
  have l4: "lookup_path (fp_config c4) ?frames = Some (JInt (frames c))"
    using write_root_leaf [of ?frames FpConfig c3 "JInt (frames c)"] w3f by (simp add: c4_def)
  have l5: "lookup_path (fp_config c5) ?wflag = Some (JBool enable)"
    using write_root_leaf [of ?wflag FpConfig c4 "JBool enable"] w4w by (simp add: c5_def)
  have f1: "lookup_path (fp_config c1) q = lookup_path (fp_config c) q"
    if "\<not> prefix q ?name" "\<not> prefix ?name q" for q
    unfolding c1_def using that by (simp add: write_leaf_frame_fp)
  have f2: "lookup_path (fp_config c2) q = lookup_path (fp_config c1) q"
    if "\<not> prefix q ?path" "\<not> prefix ?path q" for q
    unfolding c2_def using that by (simp add: write_leaf_frame_fp)
  have f3: "lookup_path (fp_config c3) q = lookup_path (fp_config c2) q"
    if "\<not> prefix q ?frames" "\<not> prefix ?frames q" for q
    unfolding c3_def using that by (simp add: write_leaf_frame_fp)
  have f4: "lookup_path (fp_config c4) q = lookup_path (fp_config c3) q"
    if "\<not> prefix q ?frames" "\<not> prefix ?frames q" for q
    unfolding c4_def using that by (simp add: write_leaf_frame_fp)
  have f5: "lookup_path (fp_config c5) q = lookup_path (fp_config c4) q"
    if "\<not> prefix q ?wflag" "\<not> prefix ?wflag q" for q
    unfolding c5_def using that by (simp add: write_leaf_frame_fp)
  have s: "frames c5 = frames c" "file_path c5 = file_path c" "file_name c5 = file_name c"
    "msg_counter c5 = msg_counter c" "polls c5 = polls c" "fr_config c5 = fr_config c"
    "filter is_send (trace c5) = filter is_send (trace c)"
    "file_path c1 = file_path c" "frames c2 = frames c" "frames c3 = frames c"
    by (simp_all add: c5_def c4_def c3_def c2_def c1_def write_leaf_sends)
  have sec3: "section_at (tree_of FpConfig c3) [''hdf'']"
    unfolding c3_def using w2f by (intro write_root_sections) simp_all
  have sec4: "section_at (tree_of FpConfig c4) [''hdf'']"
    unfolding c4_def using w3f by (intro write_root_sections) simp_all
  have sec5: "section_at (tree_of FpConfig c5) [''hdf'']"
    unfolding c5_def using w4w by (intro write_root_sections) simp_all
  obtain kvs where h: "lookup_path (tree_of FpConfig c5) [''hdf''] = Some (JObj kvs)"
    using sec5 by (rule section_atE)
  let ?h = "JObj kvs"
  have below: "lookup_path (fp_config c5) (''hdf'' # r) = lookup_path ?h r" for r
    using lookup_path_append [of "fp_config c5" "[''hdf'']" r] h by simp
  let ?msg = "\<lparr>msg_type = ''cmd'', msg_val = ''configure'',
                 msg_id = (msg_counter c + 1) mod 2 ^ 32,
                 params = Some (JObj [(''hdf'', ?h)])\<rparr>"
  define note_text where "note_text = ''Sending file writing '' @ (if enable then ''enable'' else ''disable'')
                      @ '' command to frame processor''"
  let ?text = note_text
  let ?c' = "c5\<lparr>msg_counter := (msg_counter c + 1) mod 2 ^ 32,
                 trace := (trace c5 @ [Log Info ?text]) @ [Send FpCtrl ?msg],
                 polls := Suc (polls c5)\<rparr>"
  have a1: "bindA (reading file_name) set_file_name c = (Inr (), c1)"
    using r1 by (simp add: bindA_reading set_file_name_run)
  have a2: "bindA (reading file_path) set_file_path c1 = (Inr (), c2)"
    using r2 s by (simp add: bindA_reading set_file_path_run)
  have a3: "bindA (reading frames) set_num_frames c2 = (Inr (), c3)"
    using r3 s by (simp add: bindA_reading set_num_frames_run)
  have a4: "bindA (reading frames) (\<lambda>n. assign (FpConfig, [''hdf'']) ''frames'' (JInt n)) c3
              = (Inr (), c4)"
    using r4 s by (simp add: bindA_reading assign_as_root_write [OF sec3])
  have a5: "assign (FpConfig, [''hdf'']) ''write'' (JBool enable) c4 = (Inr (), c5)"
    using r5 by (simp add: assign_as_root_write [OF sec4])
  have a6: "logger Info ?text c5 = (Inr (), c5\<lparr>trace := trace c5 @ [Log Info ?text]\<rparr>)"
    by (rule logger_eq)
  have a7: "bindA (deref (FpConfig, [''hdf''])) (\<lambda>hdf.
              discard (send_config_cmd net FpCtrl (JObj [(''hdf'', hdf)])))
              (c5\<lparr>trace := trace c5 @ [Log Info ?text]\<rparr>) = (Inr (), ?c')"
    using deref_found [of FpConfig "c5\<lparr>trace := trace c5 @ [Log Info ?text]\<rparr>" "[''hdf'']" ?h] h
    by (simp add: bindA_def discard_def returnA_def send_config_cmd_def send_cmd_eq s)
  have run: "set_file_writing net enable c = (Inr (), ?c')"
    unfolding set_file_writing_def block.simps thenA_def note_text_def [symmetric]
    by (simp add: bindA_Inr [of _ c "()" c1] bindA_Inr [of _ c1 "()" c2] bindA_Inr [of _ c2 "()" c3]
          bindA_Inr [of _ c3 "()" c4] bindA_Inr [of _ c4 "()" c5]
          bindA_Inr [of _ c5 "()" "c5\<lparr>trace := trace c5 @ [Log Info ?text]\<rparr>"]
          bindA_Inr [of _ "c5\<lparr>trace := trace c5 @ [Log Info ?text]\<rparr>" "()" ?c']
          a1 a2 a3 a4 a5 a6 a7 returnA_def)
  show ?thesis
  proof (rule that [of ?c' ?h])
    show "set_file_writing net enable c = (Inr (), ?c')" by (rule run)
    show "filter is_send (trace ?c') = filter is_send (trace c) @ [Send FpCtrl ?msg]"
      using s by simp
    show "lookup_path (fp_config ?c') [''hdf''] = Some ?h" using h by simp
    show "lookup_path ?h [''frames''] = Some (JInt (frames c))"
      using below [of "[''frames'']"] f5 [of ?frames] l4 by simp
    show "lookup_path ?h [''file'', ''path''] = Some (JStr (file_path c))"
      using below [of "[''file'', ''path'']"] f5 [of ?path] f4 [of ?path] f3 [of ?path] l2 by simp
    show "lookup_path ?h [''file'', ''name''] = Some (JStr (file_name c))"
      using below [of "[''file'', ''name'']"] f5 [of ?name] f4 [of ?name] f3 [of ?name]
        f2 [of ?name] l1 by simp
    show "lookup_path ?h [''write''] = Some (JBool enable)"
      using below [of "[''write'']"] l5 by simp
    show "frames ?c' = frames c" "file_path ?c' = file_path c" "file_name ?c' = file_name c"
      using s by simp_all
    show "fr_config ?c' = fr_config c"
      using s by simp
    show "lookup_path (fp_config ?c') q = lookup_path (fp_config c) q"
      if nq: "\<not> prefix [''hdf''] q" "q \<noteq> []" for q
    proof -
      obtain k r where q: "q = k # r" "k \<noteq> ''hdf''"
        using nq by (cases q) auto
      then show ?thesis
        using f1 [of q] f2 [of q] f3 [of q] f4 [of q] f5 [of q] by simp
    qed
    show "lookup_path (fp_config ?c') q = lookup_path (fp_config c) q"
      if "prefix [''hdf''] q"
        "\<not> prefix q ?name" "\<not> prefix ?name q" "\<not> prefix q ?path" "\<not> prefix ?path q"
        "\<not> prefix q ?frames" "\<not> prefix ?frames q" "\<not> prefix q ?wflag" "\<not> prefix ?wflag q" for q
      using f1 [of q] f2 [of q] f3 [of q] f4 [of q] f5 [of q] that by simp
    show "writable (fp_config ?c') w2"
      if "writable (fp_config c) w2" "\<not> strict_prefix ?name w2" "\<not> strict_prefix ?path w2"
        "\<not> strict_prefix ?frames w2" "\<not> strict_prefix ?wflag w2" for w2
      using k5 [of w2] k4 [of w2] k3 [of w2] k2 [of w2] k1 [of w2] that by simp
  qed
qed


lemma thenA_ok: "fst (m c) = Inr () \<Longrightarrow> thenA m n c = n (snd (m c))"
  by (cases "m c") (simp add: thenA_def bindA_def)

lemma session_setter_run:
  assumes "is_session_setter op" and J: "writable (fp_config c) [''hdf'', ''file'', ''path'']"
  shows "fst (perform net op c) = Inr ()
       \<and> writable (fp_config (snd (perform net op c))) [''hdf'', ''file'', ''path'']
       \<and> (frames (snd (perform net op c)), file_path (snd (perform net op c)),
           file_name (snd (perform net op c)))
          = session_after op (frames c, file_path c, file_name c)"
proof -
  note J' = J writable_hdf [OF J]
  have step: "fst (write_leaf FpConfig [] w v c0) = Inr ()
            \<and> writable (fp_config (snd (write_leaf FpConfig [] w v c0))) [''hdf'', ''file'', ''path'']"
    if "w \<noteq> []" "writable (fp_config c0) w" "writable (fp_config c0) [''hdf'', ''file'', ''path'']"
      "\<not> strict_prefix w [''hdf'', ''file'', ''path'']" for w v c0
    using write_root_fst [of w FpConfig c0 v]
      write_root_writable [of w FpConfig c0 FpConfig "[''hdf'', ''file'', ''path'']" v] that
    by simp
  show ?thesis
  proof (cases op)
    case (SetNumFrames n)
    then show ?thesis
      using step [of "[''hdf'', ''frames'']" "c\<lparr>frames := n\<rparr>" "JInt n"] J'
      by (simp add: set_num_frames_run)
  next
    case (SetFilePath p)
    then show ?thesis
      using step [of "[''hdf'', ''file'', ''path'']" "c\<lparr>file_path := p\<rparr>" "JStr p"] J'
      by (simp add: set_file_path_run)
  next
    case (SetFileName f)
    then show ?thesis
      using step [of "[''hdf'', ''file'', ''name'']" "c\<lparr>file_name := f\<rparr>" "JStr f"] J'
      by (simp add: set_file_name_run)
  qed (use assms in simp_all)
qed

lemma session_setters_run:
  assumes "\<forall>op \<in> set ops. is_session_setter op"
    and "writable (fp_config c) [''hdf'', ''file'', ''path'']"
  shows "fst (for_each ops (perform net) c) = Inr ()
       \<and> writable (fp_config (snd (for_each ops (perform net) c))) [''hdf'', ''file'', ''path'']
       \<and> (frames (snd (for_each ops (perform net) c)),
           file_path (snd (for_each ops (perform net) c)),
           file_name (snd (for_each ops (perform net) c)))
          = foldl (\<lambda>s op. session_after op s) (frames c, file_path c, file_name c) ops"
  using assms
proof (induction ops arbitrary: c)
  case Nil
  then show ?case by (simp add: returnA_def)
next
  case (Cons op ops)
  have op: "is_session_setter op" and rest: "\<forall>op \<in> set ops. is_session_setter op"
    using Cons.prems(1) by simp_all
  note one = session_setter_run [OF op Cons.prems(2), of net]
  have unfold: "for_each (op # ops) (perform net) c
                  = for_each ops (perform net) (snd (perform net op c))"
    using one by (simp add: thenA_ok)
  show ?case
    unfolding unfold using Cons.IH [OF rest, of "snd (perform net op c)"] one
    by simp
qed

text \<open>
  C3. Start from a client whose processor tree has nothing but sections on the way to
  \<^verbatim>\<open>hdf.file.path\<close> (the initial client is one) and call
  \<^verbatim>\<open>set_num_frames\<close>, \<^verbatim>\<open>set_file_path\<close> and \<^verbatim>\<open>set_file_name\<close> any
  number of times in any order. All calls return, and the session fields are the ones
  the latest calls set. \<^verbatim>\<open>set_file_writing(enable)\<close> then returns and sends one
  message, a \<^verbatim>\<open>configure\<close> command on the processor channel whose parameters are
  the single key \<^verbatim>\<open>hdf\<close> with the \<^verbatim>\<open>hdf\<close> subtree of the processor tree,
  in which \<^verbatim>\<open>frames\<close>, \<^verbatim>\<open>file.path\<close>, \<^verbatim>\<open>file.name\<close> hold the session
  fields and \<^verbatim>\<open>write\<close> holds \<open>enable\<close>.
\<close>

theorem set_file_writing_payload:
  assumes "\<forall>op \<in> set ops. is_session_setter op"
    and "writable (fp_config c0) [''hdf'', ''file'', ''path'']"
  shows "let c = snd (for_each ops (perform net) c0);
             c' = snd (set_file_writing net' enable c)
         in fst (for_each ops (perform net) c0) = Inr ()
          \<and> (frames c, file_path c, file_name c)
              = foldl (\<lambda>s op. session_after op s) (frames c0, file_path c0, file_name c0) ops
          \<and> fst (set_file_writing net' enable c) = Inr ()
          \<and> (\<exists>h. filter is_send (trace c') = filter is_send (trace c) @
                     [Send FpCtrl \<lparr>msg_type = ''cmd'', msg_val = ''configure'',
                                   msg_id = (msg_counter c + 1) mod 2 ^ 32,
                                   params = Some (JObj [(''hdf'', h)])\<rparr>]
                 \<and> lookup_path (fp_config c') [''hdf''] = Some h
                 \<and> lookup_path h [''frames''] = Some (JInt (frames c))
                 \<and> lookup_path h [''file'', ''path''] = Some (JStr (file_path c))
                 \<and> lookup_path h [''file'', ''name''] = Some (JStr (file_name c))
                 \<and> lookup_path h [''write''] = Some (JBool enable))"
proof -
  define c where "c = snd (for_each ops (perform net) c0)"
  have seq: "fst (for_each ops (perform net) c0) = Inr ()"
    and J: "writable (fp_config c) [''hdf'', ''file'', ''path'']"
    and fields: "(frames c, file_path c, file_name c)
              = foldl (\<lambda>s op. session_after op s) (frames c0, file_path c0, file_name c0) ops"
    using session_setters_run [OF assms, of net] by (simp_all add: c_def)
  obtain c' h where run: "set_file_writing net' enable c = (Inr (), c')"
    and sent: "filter is_send (trace c') = filter is_send (trace c) @
           [Send FpCtrl \<lparr>msg_type = ''cmd'', msg_val = ''configure'',
                         msg_id = (msg_counter c + 1) mod 2 ^ 32,
                         params = Some (JObj [(''hdf'', h)])\<rparr>]"
    and h: "lookup_path (fp_config c') [''hdf''] = Some h"
      "lookup_path h [''frames''] = Some (JInt (frames c))"
      "lookup_path h [''file'', ''path''] = Some (JStr (file_path c))"
      "lookup_path h [''file'', ''name''] = Some (JStr (file_name c))"
      "lookup_path h [''write''] = Some (JBool enable)"
    using set_file_writing_run [OF J, of net' enable] by metis
  have "\<exists>h. filter is_send (trace c') = filter is_send (trace c) @
                     [Send FpCtrl \<lparr>msg_type = ''cmd'', msg_val = ''configure'',
                                   msg_id = (msg_counter c + 1) mod 2 ^ 32,
                                   params = Some (JObj [(''hdf'', h)])\<rparr>]
                 \<and> lookup_path (fp_config c') [''hdf''] = Some h
                 \<and> lookup_path h [''frames''] = Some (JInt (frames c))
                 \<and> lookup_path h [''file'', ''path''] = Some (JStr (file_path c))
                 \<and> lookup_path h [''file'', ''name''] = Some (JStr (file_name c))
                 \<and> lookup_path h [''write''] = Some (JBool enable)"
    using sent h by blast
  then show ?thesis
    unfolding Let_def c_def [symmetric] using seq fields run by simp
qed

theorem set_file_writing_payload_witness:
  "let c = snd (for_each [SetFileName ''run.h5'', SetNumFrames 7, SetFilePath ''/data'']
                  (perform no_reply) init_client);
       c' = snd (set_file_writing no_reply True c)
   in fst (set_file_writing no_reply True c) = Inr ()
    \<and> (\<exists>h. filter is_send (trace c') = filter is_send (trace c) @
                     [Send FpCtrl \<lparr>msg_type = ''cmd'', msg_val = ''configure'',
                                   msg_id = (msg_counter c + 1) mod 2 ^ 32,
                                   params = Some (JObj [(''hdf'', h)])\<rparr>]
           \<and> lookup_path h [''frames''] = Some (JInt 7)
           \<and> lookup_path h [''file'', ''path''] = Some (JStr ''/data'')
           \<and> lookup_path h [''file'', ''name''] = Some (JStr ''run.h5'')
           \<and> lookup_path h [''write''] = Some (JBool True))"
proof -
  have setters: "\<forall>op \<in> set [SetFileName ''run.h5'', SetNumFrames 7, SetFilePath ''/data''].
                   is_session_setter op"
    by simp
  have tree: "writable (fp_config init_client) [''hdf'', ''file'', ''path'']"
    by (simp add: init_client_def writable_def absent_or_section_def)
  show ?thesis
    using set_file_writing_payload [OF setters tree, of no_reply no_reply True]
    unfolding Let_def by (auto simp add: init_client_def)
qed

subsection \<open>Sections are created once and siblings are kept\<close>

lemma update_absent: "map_of kvs k = None \<Longrightarrow> AList.update k v kvs = kvs @ [(k, v)]"
  by (induction kvs) (auto split: if_splits)

lemma ensure_absent:
  assumes obj: "lookup_path (tree_of tr c) p = Some (JObj kvs)" and "map_of kvs k = None"
  shows "fst (ensure_config_section (tr, p) k c) = Inr ()"
    and "lookup_path (tree_of tr (snd (ensure_config_section (tr, p) k c))) p
           = Some (JObj (kvs @ [(k, JObj [])]))"
  using assms lookup_update_at_ext [OF obj, of "JObj (AList.update k (JObj []) kvs)" "[]"]
  by (simp_all add: ensure_section [OF obj] update_absent)

lemma ensure_present:
  assumes obj: "lookup_path (tree_of tr c) p = Some (JObj kvs)" and "map_of kvs k \<noteq> None"
  shows "ensure_config_section (tr, p) k c = (Inr (), c)"
  using assms by (simp add: ensure_section [OF obj])

lemma ensure_twice:
  "thenA (ensure_config_section r k) (ensure_config_section r k) = ensure_config_section r k"
proof
  fix c
  obtain tr p where r: "r = (tr, p)" by (cases r)
  show "thenA (ensure_config_section r k) (ensure_config_section r k) c
          = ensure_config_section r k c"
  proof (cases "section_at (tree_of tr c) p")
    case True
    then obtain kvs where obj: "lookup_path (tree_of tr c) p = Some (JObj kvs)"
      by (rule section_atE)
    show ?thesis
    proof (cases "map_of kvs k")
      case (Some x)
      then have "ensure_config_section (tr, p) k c = (Inr (), c)"
        using ensure_present [OF obj] by simp
      then show ?thesis unfolding r by (simp add: thenA_def bindA_def)
    next
      case None
      define c1 where "c1 = snd (ensure_config_section (tr, p) k c)"
      have first: "ensure_config_section (tr, p) k c = (Inr (), c1)"
        using ensure_absent(1) [OF obj None] unfolding c1_def
        by (cases "ensure_config_section (tr, p) k c") simp
      have "lookup_path (tree_of tr c1) p = Some (JObj (kvs @ [(k, JObj [])]))"
        unfolding c1_def by (rule ensure_absent(2) [OF obj None])
      then have "ensure_config_section (tr, p) k c1 = (Inr (), c1)"
        by (rule ensure_present) simp
      then show ?thesis unfolding r using first by (simp add: thenA_def bindA_def)
    qed
  next
    case False
    then have same: "snd (ensure_config_section (tr, p) k c) = c"
      by (rule ensure_no_section)
    show ?thesis
    proof (cases "ensure_config_section (tr, p) k c")
      case (Pair res c')
      then have "c' = c" using same by simp
      then show ?thesis unfolding r using Pair by (cases res) (simp_all add: thenA_def bindA_def)
    qed
  qed
qed

lemma tree_of_session_update [simp]:
  "tree_of tr (c\<lparr>frames := n\<rparr>) = tree_of tr c"
  "tree_of tr (c\<lparr>file_path := p\<rparr>) = tree_of tr c"
  "tree_of tr (c\<lparr>file_name := f\<rparr>) = tree_of tr c"
  by (cases tr; simp)+

lemma write_leaf_frame_any:
  assumes "tr2 = tr \<Longrightarrow> \<not> prefix q (p @ ks) \<and> \<not> prefix (p @ ks) q"
  shows "lookup_path (tree_of tr2 (snd (write_leaf tr p ks v c))) q = lookup_path (tree_of tr2 c) q"
proof (cases "tr2 = tr")
  case True
  then show ?thesis using assms write_leaf_frame [of q p ks tr v c] by simp
next
  case False
  have "tree_of tr2 (snd (write_leaf tr p ks v c)) = tree_of tr2 c"
    using False by (intro write_leaf_keeps) simp_all
  then show ?thesis by simp
qed

lemma lookup_keeps_send:
  "lookup_path (tree_of tr2 (snd (discard (send_config_cmd net ch ps) c))) q
     = lookup_path (tree_of tr2 c) q"
  unfolding send_config_cmd_def
  by (rule discard_keeps) (rule send_cmd_keeps; cases tr2; simp)

lemma lookup_keeps_logger:
  "lookup_path (tree_of tr2 (snd (logger lv msg c))) q = lookup_path (tree_of tr2 c) q"
  by (simp add: logger_eq)

lemma set_file_writing_frame:
  assumes "tr2 = FpConfig \<Longrightarrow>
             (\<not> prefix q [''hdf'', ''file'', ''name''] \<and> \<not> prefix [''hdf'', ''file'', ''name''] q)
           \<and> (\<not> prefix q [''hdf'', ''file'', ''path''] \<and> \<not> prefix [''hdf'', ''file'', ''path''] q)
           \<and> (\<not> prefix q [''hdf'', ''frames''] \<and> \<not> prefix [''hdf'', ''frames''] q)
           \<and> (\<not> prefix q [''hdf'', ''write''] \<and> \<not> prefix [''hdf'', ''write''] q)"
  shows "lookup_path (tree_of tr2 (snd (set_file_writing net enable c))) q
           = lookup_path (tree_of tr2 c) q"
proof -
  have name: "lookup_path (tree_of tr2 (snd (set_file_name f c))) q = lookup_path (tree_of tr2 c) q"
    for f c
    using assms write_leaf_frame_any [of tr2 FpConfig q "[]" "[''hdf'', ''file'', ''name'']"]
    by (simp add: set_file_name_state)
  have path: "lookup_path (tree_of tr2 (snd (set_file_path f c))) q = lookup_path (tree_of tr2 c) q"
    for f c
    using assms write_leaf_frame_any [of tr2 FpConfig q "[]" "[''hdf'', ''file'', ''path'']"]
    by (simp add: set_file_path_state)
  have frames: "lookup_path (tree_of tr2 (snd (set_num_frames n c))) q = lookup_path (tree_of tr2 c) q"
    for n c
    using assms write_leaf_frame_any [of tr2 FpConfig q "[]" "[''hdf'', ''frames'']"]
    by (simp add: set_num_frames_state)
  have again: "lookup_path (tree_of tr2 (snd (assign (FpConfig, [''hdf'']) ''frames'' v c))) q
                 = lookup_path (tree_of tr2 c) q" for v c
    using assms write_leaf_frame_any [of tr2 FpConfig q "[''hdf'']" "[''frames'']"]
    by (simp add: assign_write)
  have flag: "lookup_path (tree_of tr2 (snd (assign (FpConfig, [''hdf'']) ''write'' v c))) q
                 = lookup_path (tree_of tr2 c) q" for v c
    using assms write_leaf_frame_any [of tr2 FpConfig q "[''hdf'']" "[''write'']"]
    by (simp add: assign_write)
  note keeps = bindA_keeps [where g = "\<lambda>c. lookup_path (tree_of tr2 c) q"]
    thenA_keeps [where g = "\<lambda>c. lookup_path (tree_of tr2 c) q"]
  show ?thesis
    unfolding set_file_writing_def block.simps
    by (intro keeps)
       (simp_all add: name path frames again flag lookup_keeps_logger lookup_keeps_send
          deref_state)
qed

lemma set_bitdepth_frame:
  assumes "tr2 = FrConfig \<Longrightarrow>
             \<not> prefix q [''decoder_config'', ''bitdepth''] \<and> \<not> prefix [''decoder_config'', ''bitdepth''] q"
    and "tr2 = FpConfig \<Longrightarrow>
             (\<not> prefix q [''excalibur'', ''bitdepth''] \<and> \<not> prefix [''excalibur'', ''bitdepth''] q)
           \<and> (\<not> prefix q [''hdf'', ''dataset'', ''data'', ''datatype'']
              \<and> \<not> prefix [''hdf'', ''dataset'', ''data'', ''datatype''] q)"
  shows "lookup_path (tree_of tr2 (snd (set_bitdepth b c))) q = lookup_path (tree_of tr2 c) q"
proof -
  have 1: "lookup_path (tree_of tr2
             (snd (write_leaf FrConfig [] [''decoder_config'', ''bitdepth''] v c))) q
           = lookup_path (tree_of tr2 c) q" for v c
    using assms(1) by (intro write_leaf_frame_any) simp
  have 2: "lookup_path (tree_of tr2
             (snd (write_leaf FpConfig [] [''excalibur'', ''bitdepth''] v c))) q
           = lookup_path (tree_of tr2 c) q" for v c
    using assms(2) by (intro write_leaf_frame_any) simp
  have 3: "lookup_path (tree_of tr2
             (snd (write_leaf FpConfig [] [''hdf'', ''dataset'', ''data'', ''datatype''] v c))) q
           = lookup_path (tree_of tr2 c) q" for v c
    using assms(2) by (intro write_leaf_frame_any) simp
  note keeps = bindA_keeps [where g = "\<lambda>c. lookup_path (tree_of tr2 c) q"]
    thenA_keeps [where g = "\<lambda>c. lookup_path (tree_of tr2 c) q"]
  show ?thesis
    unfolding set_bitdepth_write
    by (intro keeps) (simp_all add: 1 2 3 liftE_state)
qed

lemma perform_frame:
  assumes "is_setter op"
    and "\<forall>(t, w) \<in> set (written op). t = tr2 \<longrightarrow> \<not> prefix q w \<and> \<not> prefix w q"
  shows "lookup_path (tree_of tr2 (snd (perform net op c))) q = lookup_path (tree_of tr2 c) q"
proof (cases op)
  case (SetNumFrames n)
  then show ?thesis
    using assms(2) write_leaf_frame_any [of tr2 FpConfig q "[]" "[''hdf'', ''frames'']"]
    by (simp add: set_num_frames_state)
next
  case (SetFilePath p)
  then show ?thesis
    using assms(2) write_leaf_frame_any [of tr2 FpConfig q "[]" "[''hdf'', ''file'', ''path'']"]
    by (simp add: set_file_path_state)
next
  case (SetFileName f)
  then show ?thesis
    using assms(2) write_leaf_frame_any [of tr2 FpConfig q "[]" "[''hdf'', ''file'', ''name'']"]
    by (simp add: set_file_name_state)
next
  case (SetBitdepth b)
  then show ?thesis
    using assms(2) set_bitdepth_frame [of tr2 q b c] by simp
next
  case (SetFileWriting enable)
  then show ?thesis
    using assms(2) set_file_writing_frame [of tr2 q net enable c] by simp
qed (use assms(1) in simp_all)


lemma writable_after:
  assumes "writable t w2"
    and frame: "\<And>q. (\<forall>w \<in> set ws. \<not> prefix q w \<and> \<not> prefix w q) \<Longrightarrow>
                  lookup_path t' q = lookup_path t q"
    and present: "\<And>w. w \<in> set ws \<Longrightarrow> lookup_path t' w \<noteq> None"
    and apart: "\<And>w. w \<in> set ws \<Longrightarrow> \<not> strict_prefix w w2"
  shows "writable t' w2"
  unfolding writable_iff
proof (intro allI impI)
  fix q
  assume q: "strict_prefix q w2"
  then have before: "absent_or_section t q" using assms(1) unfolding writable_iff by blast
  show "absent_or_section t' q"
  proof (cases "\<forall>w \<in> set ws. \<not> prefix q w \<and> \<not> prefix w q")
    case True
    then have "lookup_path t' q = lookup_path t q" by (rule frame)
    then show ?thesis using before by (simp add: absent_or_section_def)
  next
    case False
    then obtain w where w: "w \<in> set ws" and near: "prefix q w \<or> prefix w q" by blast
    have "\<not> prefix w q"
    proof
      assume "prefix w q"
      then have "strict_prefix w w2" using q by (rule prefix_order.le_less_trans)
      then show False using apart [OF w] by simp
    qed
    then have "strict_prefix q w" using near by (auto simp add: strict_prefix_def)
    moreover obtain v where "lookup_path t' w = Some v" using present [OF w] by auto
    ultimately have "section_at t' q" by (intro lookup_sections)
    then show ?thesis by (rule section_at_absent_or)
  qed
qed

lemma perform_writable:
  assumes "is_setter op"
    and present: "\<forall>(t, w) \<in> set (written op). lookup_path (tree_of t (snd (perform net op c))) w \<noteq> None"
    and before: "writable (tree_of tr2 c) w2"
    and apart: "\<forall>(t, w) \<in> set (written op). t = tr2 \<longrightarrow> \<not> strict_prefix w w2"
  shows "writable (tree_of tr2 (snd (perform net op c))) w2"
proof (rule writable_after [where ws = "map snd (filter (\<lambda>tw. fst tw = tr2) (written op))",
      OF before])
  fix q
  assume "\<forall>w \<in> set (map snd (filter (\<lambda>tw. fst tw = tr2) (written op))).
            \<not> prefix q w \<and> \<not> prefix w q"
  then have "\<forall>(t, w) \<in> set (written op). t = tr2 \<longrightarrow> \<not> prefix q w \<and> \<not> prefix w q"
    by auto
  then show "lookup_path (tree_of tr2 (snd (perform net op c))) q = lookup_path (tree_of tr2 c) q"
    by (rule perform_frame [OF assms(1)])
next
  fix w
  assume "w \<in> set (map snd (filter (\<lambda>tw. fst tw = tr2) (written op)))"
  then have "(tr2, w) \<in> set (written op)" by auto
  then show "lookup_path (tree_of tr2 (snd (perform net op c))) w \<noteq> None"
    using present by blast
next
  fix w
  assume "w \<in> set (map snd (filter (\<lambda>tw. fst tw = tr2) (written op)))"
  then have "(tr2, w) \<in> set (written op)" by auto
  then show "\<not> strict_prefix w w2" using apart by blast
qed

lemma setter_leaves:
  assumes ok: "sections_ok c" and "is_setter op" and "supported op"
  shows "fst (perform net op c) = Inr ()
       \<and> (\<forall>(t, w) \<in> set (written op). lookup_path (tree_of t (snd (perform net op c))) w \<noteq> None)"
proof -
  have J: "writable (fp_config c) [''hdf'', ''file'', ''path'']"
    using ok by (simp add: sections_ok_def)
  note J' = J writable_hdf [OF J]
  show ?thesis
  proof (cases op)
    case (SetNumFrames n)
    then show ?thesis
      using write_root_fst [of "[''hdf'', ''frames'']" FpConfig "c\<lparr>frames := n\<rparr>" "JInt n"]
        write_root_leaf [of "[''hdf'', ''frames'']" FpConfig "c\<lparr>frames := n\<rparr>" "JInt n"] J'
      by (simp add: set_num_frames_run)
  next
    case (SetFilePath p)
    then show ?thesis
      using write_root_fst [of "[''hdf'', ''file'', ''path'']" FpConfig "c\<lparr>file_path := p\<rparr>" "JStr p"]
        write_root_leaf [of "[''hdf'', ''file'', ''path'']" FpConfig "c\<lparr>file_path := p\<rparr>" "JStr p"] J'
      by (simp add: set_file_path_run)
  next
    case (SetFileName f)
    then show ?thesis
      using write_root_fst [of "[''hdf'', ''file'', ''name'']" FpConfig "c\<lparr>file_name := f\<rparr>" "JStr f"]
        write_root_leaf [of "[''hdf'', ''file'', ''name'']" FpConfig "c\<lparr>file_name := f\<rparr>" "JStr f"] J'
      by (simp add: set_file_name_run)
  next
    case (SetBitdepth b)
    then obtain code where "rdtype_lookup b = Inr code"
      using assms(3) by (auto simp add: rdtype_lookup_cases)
    moreover obtain s where "format_d b = Inr s"
      using assms(3) SetBitdepth by (auto simp add: format_d_table)
    ultimately show ?thesis
      using set_bitdepth_supported [of b code s c] ok SetBitdepth by (simp add: sections_ok_def)
  next
    case (SetFileWriting enable)
    obtain c' h where run: "set_file_writing net enable c = (Inr (), c')"
      and h: "lookup_path (fp_config c') [''hdf''] = Some h"
        "lookup_path h [''frames''] = Some (JInt (frames c))"
        "lookup_path h [''file'', ''path''] = Some (JStr (file_path c))"
        "lookup_path h [''file'', ''name''] = Some (JStr (file_name c))"
        "lookup_path h [''write''] = Some (JBool enable)"
      using set_file_writing_run [OF J, of net enable] by metis
    have "lookup_path (fp_config c') (''hdf'' # r) = lookup_path h r" for r
      using lookup_path_append [of "fp_config c'" "[''hdf'']" r] h(1) by simp
    then show ?thesis using SetFileWriting run h by simp
  qed (use assms(2) in simp_all)
qed

lemma setter_ok:
  assumes ok: "sections_ok c" and setter: "is_setter op" and "supported op"
  shows "fst (perform net op c) = Inr ()"
    and "sections_ok (snd (perform net op c))"
    and "\<forall>(t, w) \<in> set (written op).
           lookup_path (tree_of t (snd (perform net op c))) w \<noteq> None
           \<and> (\<forall>q. strict_prefix q w \<longrightarrow> section_at (tree_of t (snd (perform net op c))) q)"
proof -
  note leaves = setter_leaves [OF assms, of net]
  then have present:
    "\<forall>(t, w) \<in> set (written op). lookup_path (tree_of t (snd (perform net op c))) w \<noteq> None"
    by simp
  show "fst (perform net op c) = Inr ()" using leaves by simp
  show "\<forall>(t, w) \<in> set (written op).
           lookup_path (tree_of t (snd (perform net op c))) w \<noteq> None
           \<and> (\<forall>q. strict_prefix q w \<longrightarrow> section_at (tree_of t (snd (perform net op c))) q)"
    using present lookup_sections by fastforce
  have keep: "writable (tree_of tr2 (snd (perform net op c))) w2"
    if "writable (tree_of tr2 c) w2"
      "\<forall>(t, w) \<in> set (written op). t = tr2 \<longrightarrow> \<not> strict_prefix w w2" for tr2 w2
    using perform_writable [OF setter present] that by blast
  have apart: "\<forall>(t, w) \<in> set (written op). t = FrConfig \<longrightarrow>
                 \<not> strict_prefix w [''decoder_config'', ''bitdepth'']"
    "\<forall>(t, w) \<in> set (written op). t = FpConfig \<longrightarrow>
                 \<not> strict_prefix w [''excalibur'', ''bitdepth'']"
    "\<forall>(t, w) \<in> set (written op). t = FpConfig \<longrightarrow>
                 \<not> strict_prefix w [''hdf'', ''dataset'', ''data'', ''datatype'']"
    "\<forall>(t, w) \<in> set (written op). t = FpConfig \<longrightarrow>
                 \<not> strict_prefix w [''hdf'', ''file'', ''path'']"
    by (cases op; simp add: strict_prefix_def)+
  show "sections_ok (snd (perform net op c))"
    using ok keep [of FrConfig, OF _ apart(1)] keep [of FpConfig, OF _ apart(2)]
      keep [of FpConfig, OF _ apart(3)] keep [of FpConfig, OF _ apart(4)]
    by (simp add: sections_ok_def)
qed

lemma setters_ok:
  assumes "sections_ok c" and "\<forall>op \<in> set ops. is_setter op \<and> supported op"
  shows "fst (for_each ops (perform net) c) = Inr ()
       \<and> sections_ok (snd (for_each ops (perform net) c))"
  using assms
proof (induction ops arbitrary: c)
  case Nil
  then show ?case by (simp add: returnA_def)
next
  case (Cons op ops)
  have op: "is_setter op" "supported op" using Cons.prems(2) by simp_all
  note one = setter_ok(1,2) [OF Cons.prems(1) op, of net]
  have "for_each (op # ops) (perform net) c = for_each ops (perform net) (snd (perform net op c))"
    using one(1) by (simp add: thenA_ok)
  then show ?case
    using Cons.IH [OF one(2)] Cons.prems(2) by simp
qed

lemma sections_ok_init: "sections_ok init_client"
  by (simp add: sections_ok_def init_client_def writable_def absent_or_section_def)

text \<open>
  C7. On a mapping, \<^verbatim>\<open>_ensure_config_section\<close> appends the key with an empty
  mapping when the key is absent and changes nothing at all when the key is present;
  running it twice is running it once. A setter changes no path of either tree other
  than the leaves it writes and what lies above or below them: every sibling key keeps
  its value, whether the call returns or raises. From a client in which nothing but
  sections lies on the way to the leaves, a setter with a supported bit depth returns,
  leaves such a client again, and every leaf it writes is there with every section on
  the way to it. The initial client is of that kind, so every sequence of such setter
  calls from it returns.
\<close>

theorem ensure_config_section_sections:
  assumes obj: "lookup_path (tree_of tr c) p = Some (JObj kvs)"
    and setter: "is_setter op"
    and apart: "\<forall>(t, w) \<in> set (written op). t = tr2 \<longrightarrow> \<not> prefix q w \<and> \<not> prefix w q"
    and ok: "sections_ok c1" and call: "is_setter op1" "supported op1"
    and calls: "\<forall>op \<in> set ops. is_setter op \<and> supported op"
  shows "(map_of kvs k = None \<longrightarrow>
            fst (ensure_config_section (tr, p) k c) = Inr ()
          \<and> lookup_path (tree_of tr (snd (ensure_config_section (tr, p) k c))) p
              = Some (JObj (kvs @ [(k, JObj [])])))
       \<and> (map_of kvs k \<noteq> None \<longrightarrow> ensure_config_section (tr, p) k c = (Inr (), c))
       \<and> thenA (ensure_config_section r k) (ensure_config_section r k) = ensure_config_section r k
       \<and> lookup_path (tree_of tr2 (snd (perform net op c2))) q = lookup_path (tree_of tr2 c2) q
       \<and> fst (perform net op1 c1) = Inr ()
       \<and> sections_ok (snd (perform net op1 c1))
       \<and> (\<forall>(t, w) \<in> set (written op1).
             lookup_path (tree_of t (snd (perform net op1 c1))) w \<noteq> None
             \<and> (\<forall>q. strict_prefix q w \<longrightarrow> section_at (tree_of t (snd (perform net op1 c1))) q))
       \<and> sections_ok init_client
       \<and> fst (for_each ops (perform net) init_client) = Inr ()
       \<and> sections_ok (snd (for_each ops (perform net) init_client))"
  using ensure_absent [OF obj, of k] ensure_present [OF obj, of k] ensure_twice [of r k]
    perform_frame [OF setter apart, of net c2] setter_ok [OF ok call, of net]
    sections_ok_init setters_ok [OF sections_ok_init calls, of net]
  by blast


theorem ensure_config_section_sections_witness:
  "fst (ensure_config_section (FpConfig, []) ''hdf'' init_client) = Inr ()
   \<and> lookup_path (fp_config (snd (ensure_config_section (FpConfig, []) ''hdf'' init_client))) []
       = Some (JObj [(''hdf'', JObj [])])
   \<and> thenA (ensure_config_section (FpConfig, []) ''hdf'') (ensure_config_section (FpConfig, []) ''hdf'')
       = ensure_config_section (FpConfig, []) ''hdf''
   \<and> lookup_path (fp_config (snd (perform no_reply (SetFilePath ''/data'') init_client)))
        [''hdf'', ''frames'']
       = lookup_path (fp_config init_client) [''hdf'', ''frames'']
   \<and> fst (perform no_reply (SetBitdepth 12) init_client) = Inr ()
   \<and> fst (for_each [SetNumFrames 3, SetBitdepth 24, SetFileWriting True] (perform no_reply)
             init_client) = Inr ()"
proof -
  have obj: "lookup_path (tree_of FpConfig init_client) [] = Some (JObj [])"
    by (simp add: init_client_def)
  have setter: "is_setter (SetFilePath ''/data'')"
    by simp
  have apart: "\<forall>(t, w) \<in> set (written (SetFilePath ''/data'')).
                 t = FpConfig \<longrightarrow> \<not> prefix [''hdf'', ''frames''] w \<and> \<not> prefix w [''hdf'', ''frames'']"
    by simp
  have ok: "sections_ok init_client"
    by (simp add: sections_ok_def init_client_def writable_def absent_or_section_def)
  have call: "is_setter (SetBitdepth 12)" "supported (SetBitdepth 12)"
    by simp_all
  have calls: "\<forall>op \<in> set [SetNumFrames 3, SetBitdepth 24, SetFileWriting True].
                 is_setter op \<and> supported op"
    by simp
  have none: "map_of ([] :: (string \<times> json) list) ''hdf'' = None"
    by simp
  show ?thesis
    using ensure_config_section_sections
      [where tr = FpConfig and c = init_client and p = "[]" and kvs = "[]"
         and op = "SetFilePath ''/data''" and ?tr2.0 = FpConfig and q = "[''hdf'', ''frames'']"
         and ?c1.0 = init_client and ?op1.0 = "SetBitdepth 12"
         and ops = "[SetNumFrames 3, SetBitdepth 24, SetFileWriting True]"
         and k = "''hdf''" and r = "(FpConfig, [])" and net = no_reply and ?c2.0 = init_client,
       OF obj setter apart ok call calls]
      none
    by simp
qed

end
